theory Spec2Isabelle
  imports Main "HOL-Library.While_Combinator"
begin

section \<open>Data model of \<^verbatim>\<open>Ordonnancement\<close>\<close>

text \<open>
  The task table is the Python dictionary \<^verbatim>\<open>{num: (duree, [predecesseurs])}\<close>. A dictionary
  iterates in insertion order and has no duplicate key, so it is an association list whose
  keys are distinct (\<open>table_ok\<close>). Task numbers, durations and predecessors are Python
  integers (unbounded, possibly negative). The adjacency matrix holds \<^verbatim>\<open>None\<close> or an integer.
\<close>

type_synonym task_table = "(int \<times> int \<times> int list) list"
type_synonym matrice = "int option list list"

datatype error = KeyError int | IndexError | OverflowError

record ordonnancement =
  tasks :: task_table
  matrix :: "matrice option"
  n :: nat
  alpha :: nat
  omega :: nat

definition table_ok :: "task_table \<Rightarrow> bool" where
  "table_ok tt = distinct (map fst tt)"

text \<open>\<^verbatim>\<open>__init__\<close>.\<close>

definition init :: ordonnancement where
  "init = \<lparr>tasks = [], matrix = None, n = 0, alpha = 0, omega = 0\<rparr>"

text \<open>
  \<^verbatim>\<open>lire_fichier\<close>, after the file has been parsed into the table \<open>tt\<close> (opening and parsing
  the file is outside the model): it stores the table and sets \<^verbatim>\<open>n = len(tasks)\<close> and
  \<^verbatim>\<open>omega = n + 1\<close>.
\<close>

definition lire_fichier :: "task_table \<Rightarrow> ordonnancement \<Rightarrow> ordonnancement" where
  "lire_fichier tt s = s\<lparr>tasks := tt, n := length tt, omega := length tt + 1\<rparr>"

section \<open>\<^verbatim>\<open>construire_graphe\<close>\<close>

text \<open>
  Python list indexing: an index in \<open>[0, len)\<close> is itself, one in \<open>[-len, 0)\<close> counts from the
  end, anything else raises \<^verbatim>\<open>IndexError\<close>.
\<close>

definition py_index :: "nat \<Rightarrow> int \<Rightarrow> nat option" where
  "py_index len i =
     (if 0 \<le> i \<and> i < int len then Some (nat i)
      else if - int len \<le> i \<and> i < 0 then Some (nat (int len + i))
      else None)"

text \<open>\<^verbatim>\<open>self.matrix[i][j] = v\<close>. The rows are separate lists, so only one cell changes.\<close>

definition set_cell :: "matrice \<Rightarrow> int \<Rightarrow> int \<Rightarrow> int \<Rightarrow> error + matrice" where
  "set_cell m i j v =
     (case py_index (length m) i of
        None \<Rightarrow> Inl IndexError
      | Some r \<Rightarrow>
          (case py_index (length (m ! r)) j of
             None \<Rightarrow> Inl IndexError
           | Some c \<Rightarrow> Inr (m[r := (m ! r)[c := Some v]])))"

text \<open>First loop: an arc of weight 0 from \<open>alpha\<close> to every task without predecessor.\<close>

fun arcs_alpha :: "nat \<Rightarrow> task_table \<Rightarrow> matrice \<Rightarrow> error + matrice" where
  "arcs_alpha a [] m = Inr m"
| "arcs_alpha a ((task, duration, predecessors) # rest) m =
     (if predecessors = [] then
        (case set_cell m (int a) task 0 of
           Inl e \<Rightarrow> Inl e
         | Inr m' \<Rightarrow> arcs_alpha a rest m')
      else arcs_alpha a rest m)"

text \<open>
  Second loop: \<^verbatim>\<open>self.matrix[pred][task] = self.tasks[pred][0]\<close>. Python evaluates the right-hand
  side first, so a predecessor that is no key of the table raises \<^verbatim>\<open>KeyError\<close> before the
  matrix is touched.
\<close>

fun arcs_pred :: "task_table \<Rightarrow> int \<Rightarrow> int list \<Rightarrow> matrice \<Rightarrow> error + matrice" where
  "arcs_pred tt task [] m = Inr m"
| "arcs_pred tt task (pred # preds) m =
     (case map_of tt pred of
        None \<Rightarrow> Inl (KeyError pred)
      | Some (d, ps) \<Rightarrow>
          (case set_cell m pred task d of
             Inl e \<Rightarrow> Inl e
           | Inr m' \<Rightarrow> arcs_pred tt task preds m'))"

fun arcs_taches :: "task_table \<Rightarrow> task_table \<Rightarrow> matrice \<Rightarrow> error + matrice" where
  "arcs_taches tt [] m = Inr m"
| "arcs_taches tt ((task, duration, predecessors) # rest) m =
     (case arcs_pred tt task predecessors m of
        Inl e \<Rightarrow> Inl e
      | Inr m' \<Rightarrow> arcs_taches tt rest m')"

text \<open>
  Third loop, over \<^verbatim>\<open>range(size)\<close>: a row without any arc whose index is a task number and
  is not \<open>omega\<close> gets an arc to \<open>omega\<close> weighted by the task's duration.
\<close>

fun arcs_omega :: "task_table \<Rightarrow> nat \<Rightarrow> nat \<Rightarrow> nat list \<Rightarrow> matrice \<Rightarrow> error + matrice" where
  "arcs_omega tt om sz [] m = Inr m"
| "arcs_omega tt om sz (i # rest) m =
     (let has_successor = list_ex (\<lambda>j. m ! i ! j \<noteq> None) [0..<sz] in
      case map_of tt (int i) of
        Some (d, ps) \<Rightarrow>
          (if i \<noteq> om \<and> \<not> has_successor then
             (case set_cell m (int i) (int om) d of
                Inl e \<Rightarrow> Inl e
              | Inr m' \<Rightarrow> arcs_omega tt om sz rest m')
           else arcs_omega tt om sz rest m)
      | None \<Rightarrow> arcs_omega tt om sz rest m)"

text \<open>
  The method. A raised exception leaves the method (and the program, which does not catch
  it): the result is \<open>Inl\<close>. Otherwise the object with its new matrix is returned.
\<close>

definition construire_graphe :: "ordonnancement \<Rightarrow> error + ordonnancement" where
  "construire_graphe s =
     (let sz = n s + 2;
          m0 = replicate sz (replicate sz None) in
      case arcs_alpha (alpha s) (tasks s) m0 of
        Inl e \<Rightarrow> Inl e
      | Inr m1 \<Rightarrow>
          (case arcs_taches (tasks s) (tasks s) m1 of
             Inl e \<Rightarrow> Inl e
           | Inr m2 \<Rightarrow>
               (case arcs_omega (tasks s) (omega s) sz [0..<sz] m2 of
                  Inl e \<Rightarrow> Inl e
                | Inr m3 \<Rightarrow> Inr (s\<lparr>matrix := Some m3\<rparr>))))"

text \<open>The list of arcs \<^verbatim>\<open>(i, j, valeur)\<close> that \<^verbatim>\<open>afficher_graphe\<close> collects, in its order.\<close>

definition arcs :: "matrice \<Rightarrow> (nat \<times> nat \<times> int) list" where
  "arcs m =
     concat (map (\<lambda>i. concat (map (\<lambda>j. case m ! i ! j of None \<Rightarrow> [] | Some w \<Rightarrow> [(i, j, w)])
                                   [0..<length m]))
                 [0..<length m])"

section \<open>Adjacency lists and in-degrees\<close>

text \<open>
  The double loop that every analysis method starts with:
  \<^verbatim>\<open>if self.matrix[i][j] is not None: adj[i].append(j); in_degree[j] += 1\<close>.
\<close>

definition construire_adj :: "matrice \<Rightarrow> nat list list \<times> int list" where
  "construire_adj m =
     (let sz = length m in
      fold (\<lambda>i. fold (\<lambda>j (adj, in_degree).
                        if m ! i ! j \<noteq> None
                        then (adj[i := adj ! i @ [j]], in_degree[j := in_degree ! j + 1])
                        else (adj, in_degree))
                      [0..<sz])
           [0..<sz] (replicate sz [], replicate sz 0))"

text \<open>The reversed graph of the backward pass:
  \<^verbatim>\<open>rev_adj[j].append(i); rev_in_degree[i] += 1\<close>.\<close>

definition construire_rev_adj :: "matrice \<Rightarrow> nat list list \<times> int list" where
  "construire_rev_adj m =
     (let sz = length m in
      fold (\<lambda>i. fold (\<lambda>j (rev_adj, rev_in_degree).
                        if m ! i ! j \<noteq> None
                        then (rev_adj[j := rev_adj ! j @ [i]],
                              rev_in_degree[i := rev_in_degree ! i + 1])
                        else (rev_adj, rev_in_degree))
                      [0..<sz])
           [0..<sz] (replicate sz [], replicate sz 0))"

text \<open>\<^verbatim>\<open>deque([i for i in range(size) if in_degree[i] == 0])\<close>.\<close>

definition points_entree :: "nat \<Rightarrow> int list \<Rightarrow> nat list" where
  "points_entree sz in_degree = filter (\<lambda>i. in_degree ! i = 0) [0..<sz]"

section \<open>\<^verbatim>\<open>detecter_circuit\<close>\<close>

text \<open>
  The elimination loop (Kahn): \<^verbatim>\<open>while queue: u = queue.popleft(); ...\<close>. The body of the
  \<^verbatim>\<open>for v in adj[u]\<close> loop is a recursion over the list \<open>adj ! u\<close>; the \<^verbatim>\<open>while\<close> loop is
  \<open>while_option\<close>, whose value is \<open>None\<close> when the loop does not end. That it always ends on
  a matrix is proved below, not assumed.
\<close>

fun circuit_for :: "nat list \<Rightarrow> int list \<times> nat list \<Rightarrow> int list \<times> nat list" where
  "circuit_for [] (in_degree, queue) = (in_degree, queue)"
| "circuit_for (v # vs) (in_degree, queue) =
     (let in_degree = in_degree[v := in_degree ! v - 1];
          queue = (if in_degree ! v = 0 then queue @ [v] else queue)
      in circuit_for vs (in_degree, queue))"

definition circuit_while ::
  "nat list list \<Rightarrow> int list \<times> nat list \<times> nat \<times> nat list
     \<Rightarrow> (int list \<times> nat list \<times> nat \<times> nat list) option" where
  "circuit_while adj =
     while_option (\<lambda>(in_degree, queue, count, topo_order). queue \<noteq> [])
       (\<lambda>(in_degree, queue, count, topo_order).
          let u = hd queue;
              queue = tl queue;
              topo_order = topo_order @ [u];
              (in_degree, queue) = circuit_for (adj ! u) (in_degree, queue)
          in (in_degree, queue, count + 1, topo_order))"

text \<open>
  What the nested \<^verbatim>\<open>dfs\<close> returns: \<^verbatim>\<open>False\<close>, \<^verbatim>\<open>True\<close> or a list of vertices;
  \<open>detecter_circuit\<close> itself can also return \<^verbatim>\<open>None\<close>. \<open>truthy\<close> is Python's truth value.
\<close>

datatype pyval = PyNone | PyFalse | PyTrue | PyList "nat list"

fun truthy :: "pyval \<Rightarrow> bool" where
  "truthy PyNone = False"
| "truthy PyFalse = False"
| "truthy PyTrue = True"
| "truthy (PyList xs) = (xs \<noteq> [])"

record dfs_state =
  visited :: "bool list"
  on_stack :: "bool list"
  path :: "nat list"

text \<open>\<^verbatim>\<open>path.index(x)\<close>: the first position of \<open>x\<close>.\<close>

fun index :: "nat list \<Rightarrow> nat \<Rightarrow> nat" where
  "index [] x = 0"
| "index (y # ys) x = (if y = x then 0 else Suc (index ys x))"

text \<open>
  The recursive \<^verbatim>\<open>dfs(node)\<close> with its \<^verbatim>\<open>for neighbor in adj[node]\<close> loop. The first argument
  bounds the depth of the recursion: a call nested deeper than that has the value \<open>None\<close>.
  Note the line \<^verbatim>\<open>if dfs(neighbor): return True\<close>: the caller of a call that found a
  circuit returns \<^verbatim>\<open>True\<close>, not the circuit.
\<close>

fun dfs :: "nat \<Rightarrow> nat list list \<Rightarrow> nat \<Rightarrow> dfs_state \<Rightarrow> (pyval \<times> dfs_state) option"
  and dfs_for ::
    "nat \<Rightarrow> nat list list \<Rightarrow> nat \<Rightarrow> nat list \<Rightarrow> dfs_state \<Rightarrow> (pyval \<times> dfs_state) option"
where
  "dfs 0 adj node st = None"
| "dfs (Suc k) adj node st =
     dfs_for k adj node (adj ! node)
       (st\<lparr>visited := (visited st)[node := True],
           on_stack := (on_stack st)[node := True],
           path := path st @ [node]\<rparr>)"
| "dfs_for k adj node [] st =
     Some (PyFalse, st\<lparr>on_stack := (on_stack st)[node := False], path := butlast (path st)\<rparr>)"
| "dfs_for k adj node (neighbor # rest) st =
     (if \<not> visited st ! neighbor then
        (case dfs k adj neighbor st of
           None \<Rightarrow> None
         | Some (r, st') \<Rightarrow> if truthy r then Some (PyTrue, st') else dfs_for k adj node rest st')
      else if on_stack st ! neighbor then
        Some (PyList (drop (index (path st) neighbor) (path st) @ [neighbor]), st)
      else dfs_for k adj node rest st)"

text \<open>\<^verbatim>\<open>for node in range(size): if not visited[node]: ...\<close>, ending in \<^verbatim>\<open>return []\<close>.\<close>

fun dfs_racines :: "nat \<Rightarrow> nat list list \<Rightarrow> nat list \<Rightarrow> dfs_state \<Rightarrow> pyval option" where
  "dfs_racines k adj [] st = Some (PyList [])"
| "dfs_racines k adj (node # rest) st =
     (if \<not> visited st ! node then
        (case dfs k adj node st of
           None \<Rightarrow> None
         | Some (circuit, st') \<Rightarrow>
             if truthy circuit then Some circuit else dfs_racines k adj rest st')
      else dfs_racines k adj rest st)"

text \<open>
  The method reads \<^verbatim>\<open>self.matrix\<close> only; its one caller has tested the matrix before. The
  recursion of \<^verbatim>\<open>dfs\<close> is given depth \<open>Suc sz\<close>, which is never exhausted (each nested call
  marks a vertex that was not marked).
\<close>

definition detecter_circuit :: "matrice \<Rightarrow> pyval option" where
  "detecter_circuit m =
     (let sz = length m;
          (adj, in_degree) = construire_adj m;
          queue = points_entree sz in_degree in
      case circuit_while adj (in_degree, queue, 0, []) of
        None \<Rightarrow> None
      | Some (in_degree, queue, count, topo_order) \<Rightarrow>
          if count \<noteq> sz then
            dfs_racines (Suc sz) adj [0..<sz]
              \<lparr>visited = replicate sz False, on_stack = replicate sz False, path = []\<rparr>
          else Some PyNone)"

section \<open>\<^verbatim>\<open>verifier_proprietes\<close>\<close>

definition has_negative :: "matrice \<Rightarrow> bool" where
  "has_negative m =
     list_ex (\<lambda>i. list_ex (\<lambda>j. case m ! i ! j of None \<Rightarrow> False | Some w \<Rightarrow> w < 0)
                           [0..<length m])
             [0..<length m]"

definition verifier_proprietes :: "ordonnancement \<Rightarrow> bool option" where
  "verifier_proprietes s =
     (case matrix s of
        None \<Rightarrow> Some False
      | Some m \<Rightarrow>
          if m = [] then Some False
          else (case detecter_circuit m of
                  None \<Rightarrow> None
                | Some circuit \<Rightarrow> Some (\<not> has_negative m \<and> \<not> truthy circuit)))"

section \<open>\<^verbatim>\<open>calculer_rangs\<close>\<close>

fun rangs_for ::
  "nat \<Rightarrow> nat list \<Rightarrow> int list \<times> nat list \<times> int list \<Rightarrow> int list \<times> nat list \<times> int list" where
  "rangs_for u [] (in_degree, queue, ranks) = (in_degree, queue, ranks)"
| "rangs_for u (v # vs) (in_degree, queue, ranks) =
     (let ranks = (if ranks ! v < ranks ! u + 1 then ranks[v := ranks ! u + 1] else ranks);
          in_degree = in_degree[v := in_degree ! v - 1];
          queue = (if in_degree ! v = 0 then queue @ [v] else queue)
      in rangs_for u vs (in_degree, queue, ranks))"

definition rangs_while ::
  "nat list list \<Rightarrow> int list \<times> nat list \<times> int list
     \<Rightarrow> (int list \<times> nat list \<times> int list) option" where
  "rangs_while adj =
     while_option (\<lambda>(in_degree, queue, ranks). queue \<noteq> [])
       (\<lambda>(in_degree, queue, ranks).
          let u = hd queue; queue = tl queue
          in rangs_for u (adj ! u) (in_degree, queue, ranks))"

text \<open>The inner \<open>None\<close> is Python's \<^verbatim>\<open>None\<close> (no matrix yet), the outer one a loop that
  does not end.\<close>

definition calculer_rangs :: "ordonnancement \<Rightarrow> int list option option" where
  "calculer_rangs s =
     (case matrix s of
        None \<Rightarrow> Some None
      | Some m \<Rightarrow>
          if m = [] then Some None
          else
            (let sz = length m;
                 ranks = replicate sz 0;
                 (adj, in_degree) = construire_adj m;
                 queue = points_entree sz in_degree in
             case rangs_while adj (in_degree, queue, ranks) of
               None \<Rightarrow> None
             | Some (in_degree, queue, ranks) \<Rightarrow> Some (Some ranks)))"

section \<open>\<^verbatim>\<open>calculer_calendriers\<close>\<close>

text \<open>
  The latest dates start at \<^verbatim>\<open>float('inf')\<close>. The only float that ever appears is that
  infinity: an integer minus an integer is an integer, and infinity minus an integer is
  infinity when the integer converts to a float. The conversion rounds to 53 bits (to
  nearest, ties to even) and raises \<^verbatim>\<open>OverflowError\<close> when the result is not finite: the
  integers that convert are those below \<^verbatim>\<open>2**1024 - 2**970\<close> in absolute value. So a date is an
  integer or \<open>Infini\<close>, and the subtraction can fail.
\<close>

datatype date = Fin int | Infini

definition flottant :: "int \<Rightarrow> bool" where
  "flottant w \<longleftrightarrow> \<bar>w\<bar> < 2 ^ 1024 - 2 ^ 970"

fun moins :: "date \<Rightarrow> int \<Rightarrow> error + date" where
  "moins (Fin a) w = Inr (Fin (a - w))"
| "moins Infini w = (if flottant w then Inr Infini else Inl OverflowError)"

text \<open>
  \<^verbatim>\<open>late[v] > x\<close>: the comparison of an integer with the infinity converts nothing and
  raises nothing.
\<close>

fun plus_grand :: "date \<Rightarrow> date \<Rightarrow> bool" where
  "plus_grand (Fin a) (Fin b) = (a > b)"
| "plus_grand Infini (Fin b) = True"
| "plus_grand x Infini = False"

text \<open>\<^verbatim>\<open>self.matrix[u][v] if self.matrix[u][v] is not None else 0\<close>.\<close>

definition poids :: "matrice \<Rightarrow> nat \<Rightarrow> nat \<Rightarrow> int" where
  "poids m u v = (case m ! u ! v of None \<Rightarrow> 0 | Some w \<Rightarrow> w)"

fun tot_for ::
  "matrice \<Rightarrow> nat \<Rightarrow> nat list \<Rightarrow> int list \<times> nat list \<times> int list
     \<Rightarrow> int list \<times> nat list \<times> int list" where
  "tot_for m u [] (in_degree, queue, early) = (in_degree, queue, early)"
| "tot_for m u (v # vs) (in_degree, queue, early) =
     (let early = (if early ! v < early ! u + poids m u v
                   then early[v := early ! u + poids m u v] else early);
          in_degree = in_degree[v := in_degree ! v - 1];
          queue = (if in_degree ! v = 0 then queue @ [v] else queue)
      in tot_for m u vs (in_degree, queue, early))"

definition tot_while ::
  "matrice \<Rightarrow> nat list list \<Rightarrow> int list \<times> nat list \<times> int list
     \<Rightarrow> (int list \<times> nat list \<times> int list) option" where
  "tot_while m adj =
     while_option (\<lambda>(in_degree, queue, early). queue \<noteq> [])
       (\<lambda>(in_degree, queue, early).
          let u = hd queue; queue = tl queue
          in tot_for m u (adj ! u) (in_degree, queue, early))"

text \<open>
  \<^verbatim>\<open>if late[v] > late[u] - w: late[v] = late[u] - w\<close>, with \<open>w\<close> the weight of the arc from
  \<open>v\<close> to \<open>u\<close>: the difference is evaluated for the test, and once more for the assignment.
\<close>

definition tard_maj :: "matrice \<Rightarrow> nat \<Rightarrow> nat \<Rightarrow> date list \<Rightarrow> error + date list" where
  "tard_maj m u v late =
     (case moins (late ! u) (poids m v u) of
        Inl e \<Rightarrow> Inl e
      | Inr d \<Rightarrow>
          if plus_grand (late ! v) d
          then (case moins (late ! u) (poids m v u) of
                  Inl e \<Rightarrow> Inl e
                | Inr d' \<Rightarrow> Inr (late[v := d']))
          else Inr late)"

fun tard_for ::
  "matrice \<Rightarrow> nat \<Rightarrow> nat list \<Rightarrow> int list \<times> nat list \<times> date list
     \<Rightarrow> error + int list \<times> nat list \<times> date list" where
  "tard_for m u [] (rev_in_degree, queue, late) = Inr (rev_in_degree, queue, late)"
| "tard_for m u (v # vs) (rev_in_degree, queue, late) =
     (case tard_maj m u v late of
        Inl e \<Rightarrow> Inl e
      | Inr late \<Rightarrow>
          (let rev_in_degree = rev_in_degree[v := rev_in_degree ! v - 1];
               queue = (if rev_in_degree ! v = 0 then queue @ [v] else queue)
           in tard_for m u vs (rev_in_degree, queue, late)))"

text \<open>
  The backward \<^verbatim>\<open>while queue\<close> loop. An exception raised in its body leaves the loop: the
  state of the loop is the exception, or the three variables.
\<close>

definition tard_while ::
  "matrice \<Rightarrow> nat list list \<Rightarrow> int list \<times> nat list \<times> date list
     \<Rightarrow> (error + int list \<times> nat list \<times> date list) option" where
  "tard_while m rev_adj st =
     while_option
       (\<lambda>r. case r of Inl e \<Rightarrow> False | Inr (rev_in_degree, queue, late) \<Rightarrow> queue \<noteq> [])
       (\<lambda>r. case r of
               Inl e \<Rightarrow> Inl e
             | Inr (rev_in_degree, queue, late) \<Rightarrow>
                 (let u = hd queue; queue = tl queue
                  in tard_for m u (rev_adj ! u) (rev_in_degree, queue, late)))
       (Inr st)"

text \<open>\<^verbatim>\<open>margins = [late[i] - early[i] for i in range(size)]\<close>.\<close>

fun calcul_marges :: "date list \<Rightarrow> int list \<Rightarrow> nat list \<Rightarrow> error + date list" where
  "calcul_marges late early [] = Inr []"
| "calcul_marges late early (i # rest) =
     (case moins (late ! i) (early ! i) of
        Inl e \<Rightarrow> Inl e
      | Inr d \<Rightarrow>
          (case calcul_marges late early rest of
             Inl e \<Rightarrow> Inl e
           | Inr ds \<Rightarrow> Inr (d # ds)))"

text \<open>
  The method returns \<^verbatim>\<open>(None, None, None)\<close> without a matrix, else
  \<^verbatim>\<open>(early, late, margins)\<close>. \<^verbatim>\<open>early[self.omega]\<close> and \<^verbatim>\<open>late[self.omega] = ...\<close> raise
  \<^verbatim>\<open>IndexError\<close> when \<open>omega\<close> is no index of the arrays; the subtractions from a latest
  date raise \<^verbatim>\<open>OverflowError\<close> as said above.
\<close>

definition calculer_calendriers ::
  "ordonnancement \<Rightarrow> (error + (int list \<times> date list \<times> date list) option) option" where
  "calculer_calendriers s =
     (case matrix s of
        None \<Rightarrow> Some (Inr None)
      | Some m \<Rightarrow>
          if m = [] then Some (Inr None)
          else
            (let sz = length m;
                 early = replicate sz 0;
                 late = replicate sz Infini;
                 (adj, in_degree) = construire_adj m;
                 queue = points_entree sz in_degree in
             case tot_while m adj (in_degree, queue, early) of
               None \<Rightarrow> None
             | Some (in_degree, queue, early) \<Rightarrow>
                 if \<not> omega s < sz then Some (Inl IndexError)
                 else
                   (let total_duration = early ! omega s;
                        late = late[omega s := Fin total_duration];
                        (rev_adj, rev_in_degree) = construire_rev_adj m;
                        queue = points_entree sz rev_in_degree in
                    case tard_while m rev_adj (rev_in_degree, queue, late) of
                      None \<Rightarrow> None
                    | Some (Inl e) \<Rightarrow> Some (Inl e)
                    | Some (Inr (rev_in_degree, queue, late)) \<Rightarrow>
                        (case calcul_marges late early [0..<sz] of
                           Inl e \<Rightarrow> Some (Inl e)
                         | Inr margins \<Rightarrow> Some (Inr (Some (early, late, margins)))))))"

section \<open>\<^verbatim>\<open>trouver_chemins_critiques\<close>\<close>

text \<open>
  The test of an arc: \<^verbatim>\<open>self.matrix[i][j] is not None and late[j] - early[i] - w == 0\<close>.
  The arrays are the caller's: reading them past their end raises \<^verbatim>\<open>IndexError\<close>, and that
  happens only for an existing arc (\<^verbatim>\<open>and\<close> evaluates its second operand only then). The
  two subtractions are made from left to right, and each can raise \<^verbatim>\<open>OverflowError\<close>.
\<close>

definition arc_critique :: "matrice \<Rightarrow> int list \<Rightarrow> date list \<Rightarrow> nat \<Rightarrow> nat \<Rightarrow> error + bool" where
  "arc_critique m early late i j =
     (case m ! i ! j of
        None \<Rightarrow> Inr False
      | Some w \<Rightarrow>
          if j < length late \<and> i < length early
          then (case moins (late ! j) (early ! i) of
                  Inl e \<Rightarrow> Inl e
                | Inr d \<Rightarrow>
                    (case moins d w of
                       Inl e \<Rightarrow> Inl e
                     | Inr d' \<Rightarrow> Inr (d' = Fin 0)))
          else Inl IndexError)"

fun critical_edges ::
  "matrice \<Rightarrow> int list \<Rightarrow> date list \<Rightarrow> (nat \<times> nat) list \<Rightarrow> (nat \<times> nat) list
     \<Rightarrow> error + (nat \<times> nat) list" where
  "critical_edges m early late [] acc = Inr acc"
| "critical_edges m early late ((i, j) # rest) acc =
     (case arc_critique m early late i j of
        Inl e \<Rightarrow> Inl e
      | Inr b \<Rightarrow> critical_edges m early late rest (if b then acc @ [(i, j)] else acc))"

text \<open>\<^verbatim>\<open>for u, v in critical_edges: adj[u].append(v)\<close>.\<close>

definition adj_critique :: "nat \<Rightarrow> (nat \<times> nat) list \<Rightarrow> nat list list" where
  "adj_critique sz ces = fold (\<lambda>(u, v) adj. adj[u := adj ! u @ [v]]) ces (replicate sz [])"

text \<open>
  \<^verbatim>\<open>dfs(node, path, paths)\<close>: it keeps no mark of the vertices seen, so on a circuit of
  critical arcs it recurses for ever. The first argument bounds the depth of the
  recursion; \<open>None\<close> says that the bound was not enough. The state \<open>(chemin, chemins)\<close> is
  the source's \<^verbatim>\<open>(path, paths)\<close>.
\<close>

fun chemins_dfs ::
  "nat \<Rightarrow> nat list list \<Rightarrow> nat \<Rightarrow> nat \<Rightarrow> nat list \<times> nat list list
     \<Rightarrow> (nat list \<times> nat list list) option"
  and chemins_for ::
    "nat \<Rightarrow> nat list list \<Rightarrow> nat \<Rightarrow> nat list \<Rightarrow> nat list \<times> nat list list
       \<Rightarrow> (nat list \<times> nat list list) option"
where
  "chemins_dfs 0 adj om node (chemin, chemins) = None"
| "chemins_dfs (Suc k) adj om node (chemin, chemins) =
     (let chemin = chemin @ [node] in
      if node = om then Some (butlast chemin, chemins @ [chemin])
      else (case chemins_for k adj om (adj ! node) (chemin, chemins) of
              None \<Rightarrow> None
            | Some (chemin, chemins) \<Rightarrow> Some (butlast chemin, chemins)))"
| "chemins_for k adj om [] (chemin, chemins) = Some (chemin, chemins)"
| "chemins_for k adj om (neighbor # rest) (chemin, chemins) =
     (case chemins_dfs k adj om neighbor (chemin, chemins) of
        None \<Rightarrow> None
      | Some st \<Rightarrow> chemins_for k adj om rest st)"

text \<open>
  The method, with the depth allowed to the recursion as first argument. Inside the
  \<open>option\<close> (the recursion ended): an exception, Python's \<^verbatim>\<open>None\<close>, or the list of paths.
\<close>

definition trouver_chemins_critiques ::
  "nat \<Rightarrow> ordonnancement \<Rightarrow> int list option \<Rightarrow> date list option
     \<Rightarrow> (error + nat list list option) option" where
  "trouver_chemins_critiques k s early late =
     (case (matrix s, early, late) of
        (Some m, Some early, Some late) \<Rightarrow>
          if m = [] then Some (Inr None)
          else
            (let sz = length m in
             case critical_edges m early late
                    (concat (map (\<lambda>i. map (\<lambda>j. (i, j)) [0..<sz]) [0..<sz])) [] of
               Inl e \<Rightarrow> Some (Inl e)
             | Inr ces \<Rightarrow>
                 (case chemins_dfs k (adj_critique sz ces) (omega s) (alpha s) ([], []) of
                    None \<Rightarrow> None
                  | Some (chemin, chemins) \<Rightarrow> Some (Inr (Some chemins))))
      | _ \<Rightarrow> Some (Inr None))"

section \<open>What the methods return, named\<close>

text \<open>The three arrays of \<open>calculer_calendriers\<close>, when it returns them.\<close>

definition dates_tot :: "ordonnancement \<Rightarrow> int list option" where
  "dates_tot s =
     (case calculer_calendriers s of
        Some (Inr (Some (early, late, margins))) \<Rightarrow> Some early
      | _ \<Rightarrow> None)"

definition dates_tard :: "ordonnancement \<Rightarrow> date list option" where
  "dates_tard s =
     (case calculer_calendriers s of
        Some (Inr (Some (early, late, margins))) \<Rightarrow> Some late
      | _ \<Rightarrow> None)"

definition marges :: "ordonnancement \<Rightarrow> date list option" where
  "marges s =
     (case calculer_calendriers s of
        Some (Inr (Some (early, late, margins))) \<Rightarrow> Some margins
      | _ \<Rightarrow> None)"

section \<open>The tables of the specification's scenarios\<close>

definition exemple :: task_table where
  "exemple = [(1, 3, []), (2, 2, []), (3, 4, [1, 2]), (4, 1, [3])]"

definition matrice_exemple :: matrice where
  "matrice_exemple =
     [[None, Some 0, Some 0, None, None, None],
      [None, None, None, Some 3, None, None],
      [None, None, None, Some 2, None, None],
      [None, None, None, None, Some 4, None],
      [None, None, None, None, None, Some 1],
      [None, None, None, None, None, None]]"

definition graphe_exemple :: ordonnancement where
  "graphe_exemple =
     \<lparr>tasks = exemple, matrix = Some matrice_exemple, n = 4, alpha = 0, omega = 5\<rparr>"

definition exemple_circuit :: task_table where
  "exemple_circuit = [(1, 1, [2]), (2, 1, [1])]"

definition matrice_circuit :: matrice where
  "matrice_circuit =
     [[None, None, None, None],
      [None, None, Some 1, None],
      [None, Some 1, None, None],
      [None, None, None, None]]"

definition graphe_circuit :: ordonnancement where
  "graphe_circuit =
     \<lparr>tasks = exemple_circuit, matrix = Some matrice_circuit, n = 2, alpha = 0, omega = 3\<rparr>"

text \<open>A task that is its own predecessor, and the graph built from it.\<close>

definition exemple_boucle :: task_table where
  "exemple_boucle = [(1, 5, [1])]"

definition matrice_boucle :: matrice where
  "matrice_boucle = [[None, None, None], [None, Some 5, None], [None, None, None]]"

definition graphe_boucle :: ordonnancement where
  "graphe_boucle =
     \<lparr>tasks = exemple_boucle, matrix = Some matrice_boucle, n = 1, alpha = 0, omega = 2\<rparr>"

text \<open>A duration outside the range of a float, before a circuit.\<close>

definition exemple_debordement :: task_table where
  "exemple_debordement = [(1, 2 ^ 1024, []), (2, 1, [1, 3]), (3, 1, [2])]"

section \<open>The elimination loop in general\<close>

text \<open>
  The four \<^verbatim>\<open>while queue\<close> loops of the source differ only in what they do to their
  own array when a vertex is taken from the queue (\<open>g\<close>) and when an arc is followed (\<open>f\<close>).
  \<open>elim_while\<close> is that loop with \<open>g\<close> and \<open>f\<close> as parameters; each loop of the source is
  proved equal to an instance of it below, and the properties are proved once.
\<close>

fun elim_for ::
  "(nat \<Rightarrow> nat \<Rightarrow> 'a \<Rightarrow> 'a) \<Rightarrow> nat \<Rightarrow> nat list \<Rightarrow> int list \<times> nat list \<times> 'a
     \<Rightarrow> int list \<times> nat list \<times> 'a" where
  "elim_for f u [] st = st"
| "elim_for f u (v # vs) (deg, q, a) =
     elim_for f u vs
       (deg[v := deg ! v - 1], (if deg[v := deg ! v - 1] ! v = 0 then q @ [v] else q), f u v a)"

definition elim_step ::
  "(nat \<Rightarrow> 'a \<Rightarrow> 'a) \<Rightarrow> (nat \<Rightarrow> nat \<Rightarrow> 'a \<Rightarrow> 'a) \<Rightarrow> nat list list
     \<Rightarrow> int list \<times> nat list \<times> 'a \<Rightarrow> int list \<times> nat list \<times> 'a" where
  "elim_step g f adj = (\<lambda>(deg, q, a). elim_for f (hd q) (adj ! hd q) (deg, tl q, g (hd q) a))"

definition elim_while ::
  "(nat \<Rightarrow> 'a \<Rightarrow> 'a) \<Rightarrow> (nat \<Rightarrow> nat \<Rightarrow> 'a \<Rightarrow> 'a) \<Rightarrow> nat list list
     \<Rightarrow> int list \<times> nat list \<times> 'a \<Rightarrow> (int list \<times> nat list \<times> 'a) option" where
  "elim_while g f adj = while_option (\<lambda>(deg, q, a). q \<noteq> []) (elim_step g f adj)"

definition dec :: "nat list \<Rightarrow> int list \<Rightarrow> int list" where
  "dec vs deg = fold (\<lambda>v d. d[v := d ! v - 1]) vs deg"

definition adj_ok :: "nat list list \<Rightarrow> bool" where
  "adj_ok adj \<longleftrightarrow>
     (\<forall>u<length adj. distinct (adj ! u) \<and> (\<forall>v\<in>set (adj ! u). v < length adj))"

definition rel_adj :: "nat list list \<Rightarrow> (nat \<times> nat) set" where
  "rel_adj adj = {(u, v). u < length adj \<and> v \<in> set (adj ! u)}"

definition reste :: "nat list list \<Rightarrow> nat list \<Rightarrow> nat \<Rightarrow> nat set" where
  "reste adj topo v = {u. u < length adj \<and> v \<in> set (adj ! u) \<and> u \<notin> set topo}"

definition degres :: "nat list list \<Rightarrow> int list" where
  "degres adj = map (\<lambda>v. int (card (reste adj [] v))) [0..<length adj]"

definition kahn_inv :: "nat list list \<Rightarrow> int list \<times> nat list \<times> nat list \<Rightarrow> bool" where
  "kahn_inv adj = (\<lambda>(deg, q, topo).
     length deg = length adj \<and> distinct (topo @ q) \<and>
     set (topo @ q) = {v. v < length adj \<and> deg ! v = 0} \<and>
     (\<forall>v<length adj. deg ! v = int (card (reste adj topo v))) \<and>
     (\<forall>i<length topo. \<forall>u<length adj. topo ! i \<in> set (adj ! u) \<longrightarrow> u \<in> set (take i topo)))"

lemma length_dec: "length (dec vs deg) = length deg"
  unfolding dec_def by (induction vs arbitrary: deg) auto

lemma nth_dec:
  "distinct vs \<Longrightarrow> v < length deg \<Longrightarrow>
   dec vs deg ! v = (if v \<in> set vs then deg ! v - 1 else deg ! v)"
  unfolding dec_def
proof (induction vs arbitrary: deg)
  case Nil
  then show ?case by simp
next
  case (Cons x xs)
  show ?case
  proof (cases "v = x")
    case True
    with Cons.prems Cons.IH [of "deg[x := deg ! x - 1]"] show ?thesis by simp
  next
    case False
    with Cons.prems Cons.IH [of "deg[x := deg ! x - 1]"] show ?thesis by simp
  qed
qed

lemma dec_Cons: "dec (v # vs) deg = dec vs (deg[v := deg ! v - 1])"
  by (simp add: dec_def)

lemma elim_for_closed:
  "distinct vs \<Longrightarrow> \<forall>v\<in>set vs. v < length deg \<Longrightarrow>
   elim_for f u vs (deg, q, a) = (dec vs deg, q @ filter (\<lambda>v. deg ! v = 1) vs, fold (f u) vs a)"
proof (induction vs arbitrary: deg q a)
  case Nil
  then show ?case by (simp add: dec_def)
next
  case (Cons v vs)
  let ?deg = "deg[v := deg ! v - 1]"
  have "?deg ! x = deg ! x" if "x \<in> set vs" for x
    using that Cons.prems by (cases "x = v") auto
  then have f: "filter (\<lambda>x. ?deg ! x = 1) vs = filter (\<lambda>x. deg ! x = 1) vs"
    by (intro filter_cong) auto
  have v: "?deg ! v = deg ! v - 1" using Cons.prems by simp
  have "\<forall>x\<in>set vs. x < length ?deg" using Cons.prems by simp
  with Cons.IH [of ?deg] Cons.prems show ?case
    by (simp add: dec_Cons f v)
qed

lemma fold_ignore: "fold (\<lambda>v t. t) vs x = x"
  by (induction vs) auto

lemma finite_reste: "finite (reste adj topo v)"
  unfolding reste_def by simp

lemma reste_snoc: "reste adj (topo @ [u]) v = reste adj topo v - {u}"
  unfolding reste_def by auto

lemma kahn_inv_step:
  assumes ok: "adj_ok adj" and inv: "kahn_inv adj (deg, q, topo)" and ne: "q \<noteq> []"
  shows "kahn_inv adj (elim_step (\<lambda>u t. t @ [u]) (\<lambda>u v t. t) adj (deg, q, topo))"
proof -
  let ?sz = "length adj"
  obtain u q' where q: "q = u # q'" using ne by (cases q) auto
  from inv have len: "length deg = ?sz"
    and dist: "distinct (topo @ q)"
    and sets: "set (topo @ q) = {v. v < ?sz \<and> deg ! v = 0}"
    and cards: "\<And>v. v < ?sz \<Longrightarrow> deg ! v = int (card (reste adj topo v))"
    and ord: "\<And>i w. i < length topo \<Longrightarrow> w < ?sz \<Longrightarrow> topo ! i \<in> set (adj ! w)
                 \<Longrightarrow> w \<in> set (take i topo)"
    by (auto simp: kahn_inv_def)
  from sets q have u: "u < ?sz" "deg ! u = 0" by auto
  from dist q have un: "u \<notin> set topo" "u \<notin> set q'" by auto
  let ?vs = "adj ! u"
  from ok u have dvs: "distinct ?vs" and bvs: "\<forall>v\<in>set ?vs. v < ?sz"
    by (auto simp: adj_ok_def)
  let ?deg = "dec ?vs deg"
  let ?q = "q' @ filter (\<lambda>v. deg ! v = 1) ?vs"
  have step: "elim_step (\<lambda>u t. t @ [u]) (\<lambda>u v t. t) adj (deg, q, topo) = (?deg, ?q, topo @ [u])"
  proof -
    have "\<forall>v\<in>set ?vs. v < length deg" using bvs len by simp
    from elim_for_closed [OF dvs this, where f = "\<lambda>u v t. t" and u = u and q = q'
        and a = "topo @ [u]"]
    show ?thesis
      by (simp add: elim_step_def q fold_ignore)
  qed
  have mem: "v \<in> set ?vs \<longleftrightarrow> u \<in> reste adj topo v" for v
    using u un by (auto simp: reste_def)
  have pos: "deg ! v \<ge> 1" if "v \<in> set ?vs" for v
  proof -
    from that bvs have v: "v < ?sz" by auto
    from that mem have "u \<in> reste adj topo v" by simp
    then have "card (reste adj topo v) \<ge> 1"
      using finite_reste [of adj topo v] by (metis One_nat_def Suc_leI card_gt_0_iff empty_iff)
    with cards [OF v] show ?thesis by simp
  qed
  have c1: "length ?deg = ?sz" by (simp add: length_dec len)
  have c4: "?deg ! v = int (card (reste adj (topo @ [u]) v))" if v: "v < ?sz" for v
  proof (cases "v \<in> set ?vs")
    case True
    then have "u \<in> reste adj topo v" using mem by simp
    then have "card (reste adj topo v - {u}) = card (reste adj topo v) - 1"
      by (simp add: finite_reste)
    moreover have "card (reste adj topo v) \<ge> 1" using pos [OF True] cards [OF v] by simp
    ultimately show ?thesis
      using True v len cards [OF v] dvs by (simp add: nth_dec reste_snoc)
  next
    case False
    then have "u \<notin> reste adj topo v" using mem by simp
    then have "reste adj topo v - {u} = reste adj topo v" by auto
    then show ?thesis using False v len cards [OF v] dvs by (simp add: nth_dec reste_snoc)
  qed
  have zero: "{v. v < ?sz \<and> ?deg ! v = 0} =
      {v. v < ?sz \<and> deg ! v = 0} \<union> {v \<in> set ?vs. deg ! v = 1}" (is "?L = ?R")
  proof (rule set_eqI)
    fix v
    show "v \<in> ?L \<longleftrightarrow> v \<in> ?R"
    proof (cases "v \<in> set ?vs")
      case True
      with bvs have "v < ?sz" by auto
      then show ?thesis using True pos [OF True] dvs len by (auto simp: nth_dec)
    next
      case False
      then show ?thesis using dvs len by (auto simp: nth_dec)
    qed
  qed
  have c3: "set ((topo @ [u]) @ ?q) = {v. v < ?sz \<and> ?deg ! v = 0}"
    using sets q zero by auto
  have new: "v \<notin> set (topo @ q)" if "v \<in> set ?vs" for v
    using pos [OF that] sets by auto
  have c2: "distinct ((topo @ [u]) @ ?q)"
    using dist q dvs new by (auto simp: distinct_filter)
  have c5: "w \<in> set (take i (topo @ [u]))"
    if i: "i < length (topo @ [u])" and w: "w < ?sz" and e: "(topo @ [u]) ! i \<in> set (adj ! w)" for i w
  proof (cases "i < length topo")
    case True
    with ord [OF True w] e show ?thesis by (simp add: nth_append)
  next
    case False
    with i have i': "i = length topo" by simp
    with e have e': "u \<in> set (adj ! w)" by simp
    have "card (reste adj topo u) = 0" using cards [OF u(1)] u(2) by simp
    then have "reste adj topo u = {}" using finite_reste [of adj topo u] by simp
    with e' w have "w \<in> set topo" by (auto simp: reste_def)
    then show ?thesis using i' by simp
  qed
  show ?thesis
    unfolding step kahn_inv_def prod.case
    using c1 c2 c3 c4 c5 by blast
qed

section \<open>What the adjacency loops compute\<close>

definition succs :: "matrice \<Rightarrow> nat \<Rightarrow> nat list" where
  "succs m u = filter (\<lambda>j. m ! u ! j \<noteq> None) [0..<length m]"

definition preds :: "matrice \<Rightarrow> nat \<Rightarrow> nat list" where
  "preds m v = filter (\<lambda>i. m ! i ! v \<noteq> None) [0..<length m]"

lemma adj_inner:
  fixes deg :: "int list"
  assumes "i < length adj" "k \<le> length deg"
  shows "fold (\<lambda>j (adj, deg). if P j then (adj[i := adj ! i @ [j]], deg[j := deg ! j + 1])
                               else (adj, deg)) [0..<k] (adj, deg)
         = (adj[i := adj ! i @ filter P [0..<k]],
            map (\<lambda>j. deg ! j + (if j < k \<and> P j then 1 else 0)) [0..<length deg])"
  using assms
proof (induction k)
  case 0
  then show ?case by (auto intro!: nth_equalityI)
next
  case (Suc k)
  then have IH: "fold (\<lambda>j (adj, deg). if P j then (adj[i := adj ! i @ [j]], deg[j := deg ! j + 1])
                               else (adj, deg)) [0..<k] (adj, deg)
         = (adj[i := adj ! i @ filter P [0..<k]],
            map (\<lambda>j. deg ! j + (if j < k \<and> P j then 1 else 0)) [0..<length deg])"
    by simp
  from Suc.prems have k: "k < length deg" by simp
  show ?case
  proof (cases "P k")
    case True
    have "(map (\<lambda>j. deg ! j + (if j < k \<and> P j then 1 else 0)) [0..<length deg])
            [k := deg ! k + 1]
          = map (\<lambda>j. deg ! j + (if j < Suc k \<and> P j then 1 else 0)) [0..<length deg]"
      using k True by (intro nth_equalityI) (auto simp: nth_list_update less_Suc_eq)
    with True IH Suc.prems k show ?thesis by simp
  next
    case False
    have "map (\<lambda>j. deg ! j + (if j < k \<and> P j then 1 else 0)) [0..<length deg]
          = map (\<lambda>j. deg ! j + (if j < Suc k \<and> P j then 1 else 0)) [0..<length deg]"
      using False by (intro nth_equalityI) (auto simp: less_Suc_eq)
    with False IH show ?thesis by simp
  qed
qed

lemma adj_outer:
  assumes "k \<le> sz"
  shows "fold (\<lambda>i. fold (\<lambda>j (adj, deg). if P i j
                              then (adj[i := adj ! i @ [j]], deg[j := deg ! j + 1])
                              else (adj, deg)) [0..<sz])
           [0..<k] (replicate sz [], replicate sz 0)
         = (map (\<lambda>i. if i < k then filter (P i) [0..<sz] else []) [0..<sz],
            map (\<lambda>j. int (length (filter (\<lambda>i. P i j) [0..<k]))) [0..<sz])"
  using assms
proof (induction k)
  case 0
  show ?case by (auto intro!: nth_equalityI)
next
  case (Suc k)
  let ?adj = "map (\<lambda>i. if i < k then filter (P i) [0..<sz] else []) [0..<sz]"
  let ?deg = "map (\<lambda>j. int (length (filter (\<lambda>i. P i j) [0..<k]))) [0..<sz]"
  from Suc have IH: "fold (\<lambda>i. fold (\<lambda>j (adj, deg). if P i j
                              then (adj[i := adj ! i @ [j]], deg[j := deg ! j + 1])
                              else (adj, deg)) [0..<sz])
           [0..<k] (replicate sz [], replicate sz 0) = (?adj, ?deg)"
    by simp
  from Suc.prems have k: "k < sz" by simp
  have a: "?adj[k := ?adj ! k @ filter (P k) [0..<sz]]
           = map (\<lambda>i. if i < Suc k then filter (P i) [0..<sz] else []) [0..<sz]"
    using k by (intro nth_equalityI) (auto simp: nth_list_update less_Suc_eq)
  have d: "map (\<lambda>j. ?deg ! j + (if j < sz \<and> P k j then 1 else 0)) [0..<length ?deg]
           = map (\<lambda>j. int (length (filter (\<lambda>i. P i j) [0..<Suc k]))) [0..<sz]"
    by (intro nth_equalityI) auto
  have "fold (\<lambda>j (adj, deg). if P k j then (adj[k := adj ! k @ [j]], deg[j := deg ! j + 1])
                               else (adj, deg)) [0..<sz] (?adj, ?deg)
        = (?adj[k := ?adj ! k @ filter (P k) [0..<sz]],
           map (\<lambda>j. ?deg ! j + (if j < sz \<and> P k j then 1 else 0)) [0..<length ?deg])"
    using k by (intro adj_inner) auto
  with IH a d show ?case by simp
qed

lemma construire_adj_eq:
  "construire_adj m =
     (map (succs m) [0..<length m], map (\<lambda>v. int (length (preds m v))) [0..<length m])"
proof -
  have "map (\<lambda>i. if i < length m then filter (\<lambda>j. m ! i ! j \<noteq> None) [0..<length m] else [])
          [0..<length m] = map (succs m) [0..<length m]"
    by (intro nth_equalityI) (auto simp: succs_def)
  with adj_outer [of "length m" "length m" "\<lambda>i j. m ! i ! j \<noteq> None"]
  show ?thesis by (simp add: construire_adj_def Let_def preds_def)
qed

lemma rev_inner:
  fixes deg :: "int list"
  assumes "i < length deg" "k \<le> length adj"
  shows "fold (\<lambda>j (adj, deg). if P j then (adj[j := adj ! j @ [i]], deg[i := deg ! i + 1])
                               else (adj, deg)) [0..<k] (adj, deg)
         = (map (\<lambda>j. if j < k \<and> P j then adj ! j @ [i] else adj ! j) [0..<length adj],
            deg[i := deg ! i + int (length (filter P [0..<k]))])"
  using assms
proof (induction k)
  case 0
  then show ?case by (auto intro!: nth_equalityI)
next
  case (Suc k)
  let ?adj = "map (\<lambda>j. if j < k \<and> P j then adj ! j @ [i] else adj ! j) [0..<length adj]"
  from Suc have IH: "fold (\<lambda>j (adj, deg). if P j
         then (adj[j := adj ! j @ [i]], deg[i := deg ! i + 1])
         else (adj, deg)) [0..<k] (adj, deg)
         = (?adj, deg[i := deg ! i + int (length (filter P [0..<k]))])"
    by simp
  from Suc.prems have k: "k < length adj" by simp
  show ?case
  proof (cases "P k")
    case True
    have "?adj[k := ?adj ! k @ [i]]
          = map (\<lambda>j. if j < Suc k \<and> P j then adj ! j @ [i] else adj ! j) [0..<length adj]"
      using k True by (intro nth_equalityI) (auto simp: nth_list_update less_Suc_eq)
    with True IH Suc.prems show ?thesis by (simp add: ac_simps)
  next
    case False
    have "?adj = map (\<lambda>j. if j < Suc k \<and> P j then adj ! j @ [i] else adj ! j) [0..<length adj]"
      using False by (intro nth_equalityI) (auto simp: less_Suc_eq)
    with False IH show ?thesis by simp
  qed
qed

lemma rev_outer:
  assumes "k \<le> sz"
  shows "fold (\<lambda>i. fold (\<lambda>j (adj, deg). if P i j
                              then (adj[j := adj ! j @ [i]], deg[i := deg ! i + 1])
                              else (adj, deg)) [0..<sz])
           [0..<k] (replicate sz [], replicate sz 0)
         = (map (\<lambda>j. filter (\<lambda>i. P i j) [0..<k]) [0..<sz],
            map (\<lambda>i. if i < k then int (length (filter (P i) [0..<sz])) else 0) [0..<sz])"
  using assms
proof (induction k)
  case 0
  show ?case by (auto intro!: nth_equalityI)
next
  case (Suc k)
  let ?adj = "map (\<lambda>j. filter (\<lambda>i. P i j) [0..<k]) [0..<sz]"
  let ?deg = "map (\<lambda>i. if i < k then int (length (filter (P i) [0..<sz])) else 0) [0..<sz]"
  from Suc have IH: "fold (\<lambda>i. fold (\<lambda>j (adj, deg). if P i j
                              then (adj[j := adj ! j @ [i]], deg[i := deg ! i + 1])
                              else (adj, deg)) [0..<sz])
           [0..<k] (replicate sz [], replicate sz 0) = (?adj, ?deg)"
    by simp
  from Suc.prems have k: "k < sz" by simp
  have a: "map (\<lambda>j. if j < sz \<and> P k j then ?adj ! j @ [k] else ?adj ! j) [0..<length ?adj]
           = map (\<lambda>j. filter (\<lambda>i. P i j) [0..<Suc k]) [0..<sz]"
    by (intro nth_equalityI) auto
  have d: "?deg[k := ?deg ! k + int (length (filter (P k) [0..<sz]))]
           = map (\<lambda>i. if i < Suc k then int (length (filter (P i) [0..<sz])) else 0) [0..<sz]"
    using k by (intro nth_equalityI) (auto simp: nth_list_update less_Suc_eq)
  have "fold (\<lambda>j (adj, deg). if P k j then (adj[j := adj ! j @ [k]], deg[k := deg ! k + 1])
                               else (adj, deg)) [0..<sz] (?adj, ?deg)
        = (map (\<lambda>j. if j < sz \<and> P k j then ?adj ! j @ [k] else ?adj ! j) [0..<length ?adj],
           ?deg[k := ?deg ! k + int (length (filter (P k) [0..<sz]))])"
    using k by (intro rev_inner) auto
  with IH a d show ?case by simp
qed

lemma construire_rev_adj_eq:
  "construire_rev_adj m =
     (map (preds m) [0..<length m], map (\<lambda>u. int (length (succs m u))) [0..<length m])"
proof -
  have "map (\<lambda>i. if i < length m then int (length (filter (\<lambda>j. m ! i ! j \<noteq> None) [0..<length m]))
                  else 0) [0..<length m]
        = map (\<lambda>u. int (length (succs m u))) [0..<length m]"
    by (intro nth_equalityI) (auto simp: succs_def)
  with rev_outer [of "length m" "length m" "\<lambda>i j. m ! i ! j \<noteq> None"]
  show ?thesis by (simp add: construire_rev_adj_def Let_def preds_def)
qed

section \<open>The elimination ends, and eliminates every vertex exactly on acyclic graphs\<close>

definition ordre_while ::
  "nat list list \<Rightarrow> int list \<times> nat list \<times> nat list \<Rightarrow> (int list \<times> nat list \<times> nat list) option" where
  "ordre_while adj = elim_while (\<lambda>u t. t @ [u]) (\<lambda>u v t. t) adj"

lemma kahn_inv_init:
  "kahn_inv adj (degres adj, points_entree (length adj) (degres adj), [])"
  by (auto simp: kahn_inv_def degres_def points_entree_def)

lemma kahn_inv_bound:
  assumes "kahn_inv adj (deg, q, topo)" "q \<noteq> []"
  shows "length topo < length adj"
proof -
  from assms(1) have d: "distinct (topo @ q)" and s: "set (topo @ q) \<subseteq> {..<length adj}"
    by (auto simp: kahn_inv_def)
  from distinct_card [OF d] have "length (topo @ q) = card (set (topo @ q))" by (rule sym)
  also from s have "\<dots> \<le> card {..<length adj}" by (intro card_mono) auto
  finally have "length topo + length q \<le> length adj" by simp
  with assms(2) show ?thesis by (cases q) auto
qed

lemma ordre_step_topo:
  "q \<noteq> [] \<Longrightarrow> snd (snd (elim_step (\<lambda>u t. t @ [u]) (\<lambda>u v t. t) adj (deg, q, topo))) = topo @ [hd q]"
proof -
  have "snd (snd (elim_for (\<lambda>u v t. t) u vs (d, q', t))) = t" for u vs d q' and t :: "nat list"
    by (induction vs arbitrary: d q') auto
  then show ?thesis by (simp add: elim_step_def)
qed

lemma ordre_termine:
  assumes ok: "adj_ok adj" and inv: "kahn_inv adj s"
  shows "\<exists>t. ordre_while adj s = Some t"
  unfolding ordre_while_def elim_while_def
proof (rule measure_while_option_Some
    [where P = "kahn_inv adj" and f = "\<lambda>(deg, q, topo). length adj - length topo"])
  show "kahn_inv adj s" by (rule inv)
next
  fix s :: "int list \<times> nat list \<times> nat list"
  assume P: "kahn_inv adj s" and b: "case s of (deg, q, a) \<Rightarrow> q \<noteq> []"
  obtain deg q topo where s: "s = (deg, q, topo)" by (cases s) auto
  with b have ne: "q \<noteq> []" by simp
  let ?s' = "elim_step (\<lambda>u t. t @ [u]) (\<lambda>u v t. t) adj s"
  have i: "kahn_inv adj ?s'" using kahn_inv_step [OF ok _ ne] P s by simp
  obtain deg' q' topo' where s': "?s' = (deg', q', topo')" by (cases ?s') auto
  from ordre_step_topo [OF ne, of adj deg topo] s s' have t: "topo' = topo @ [hd q]" by simp
  from kahn_inv_bound [OF _ ne] P s have "length topo < length adj" by simp
  with t s s' have "(case ?s' of (deg, q, topo) \<Rightarrow> length adj - length topo)
      < (case s of (deg, q, topo) \<Rightarrow> length adj - length topo)"
    by simp
  with i show "kahn_inv adj ?s' \<and>
      (case ?s' of (deg, q, topo) \<Rightarrow> length adj - length topo)
      < (case s of (deg, q, topo) \<Rightarrow> length adj - length topo)" by simp
qed

lemma ordre_final:
  assumes ok: "adj_ok adj" and inv: "kahn_inv adj s" and r: "ordre_while adj s = Some (deg, q, topo)"
  shows "q = [] \<and> kahn_inv adj (deg, [], topo)"
proof -
  from while_option_stop [OF r [unfolded ordre_while_def elim_while_def]] have q: "q = []" by simp
  have "kahn_inv adj (deg, q, topo)"
  proof (rule while_option_rule [where P = "kahn_inv adj",
        OF _ r [unfolded ordre_while_def elim_while_def] inv])
    fix s :: "int list \<times> nat list \<times> nat list"
    assume "kahn_inv adj s" "case s of (deg, q, a) \<Rightarrow> q \<noteq> []"
    then show "kahn_inv adj (elim_step (\<lambda>u t. t @ [u]) (\<lambda>u v t. t) adj s)"
      using kahn_inv_step [OF ok] by (cases s) auto
  qed
  with q show ?thesis by simp
qed

lemma finite_rel_adj: "adj_ok adj \<Longrightarrow> finite (rel_adj adj)"
proof -
  assume "adj_ok adj"
  then have "rel_adj adj \<subseteq> {..<length adj} \<times> {..<length adj}"
    by (auto simp: rel_adj_def adj_ok_def)
  then show ?thesis by (rule finite_subset) simp
qed

text \<open>A non-empty finite set in which every vertex has a predecessor holds a circuit.\<close>

lemma pas_de_minimal:
  assumes fin: "finite r" and ac: "acyclic r" and ne: "S \<noteq> {}"
    and pred: "\<And>v. v \<in> S \<Longrightarrow> \<exists>u\<in>S. (u, v) \<in> r"
  shows False
proof -
  from fin ac have "wf r" by (rule finite_acyclic_wf)
  from ne obtain x where "x \<in> S" by auto
  with \<open>wf r\<close> obtain z where z: "z \<in> S" "\<And>y. (y, z) \<in> r \<Longrightarrow> y \<notin> S"
    by (rule wfE_min) blast
  with pred [of z] show False by blast
qed

lemma kahn_complet:
  assumes ok: "adj_ok adj" and inv: "kahn_inv adj (deg, [], topo)" and ac: "acyclic (rel_adj adj)"
  shows "set topo = {..<length adj}"
proof (rule ccontr)
  assume neq: "set topo \<noteq> {..<length adj}"
  from inv have sets: "set topo = {v. v < length adj \<and> deg ! v = 0}"
    and cards: "\<And>v. v < length adj \<Longrightarrow> deg ! v = int (card (reste adj topo v))"
    by (auto simp: kahn_inv_def)
  let ?S = "{..<length adj} - set topo"
  from neq sets have ne: "?S \<noteq> {}" by auto
  have "\<exists>u\<in>?S. (u, v) \<in> rel_adj adj" if "v \<in> ?S" for v
  proof -
    from that sets have v: "v < length adj" "deg ! v \<noteq> 0" by auto
    with cards [of v] have "card (reste adj topo v) \<noteq> 0" by simp
    then have "reste adj topo v \<noteq> {}" by auto
    then obtain u where "u \<in> reste adj topo v" by auto
    then show ?thesis by (auto simp: reste_def rel_adj_def)
  qed
  with pas_de_minimal [OF finite_rel_adj [OF ok] ac ne] show False by blast
qed

lemma index_less: "x \<in> set xs \<Longrightarrow> index xs x < length xs \<and> xs ! index xs x = x"
  by (induction xs) auto

lemma index_take: "x \<in> set (take i xs) \<Longrightarrow> index xs x < i"
proof (induction xs arbitrary: i)
  case Nil
  then show ?case by simp
next
  case (Cons y ys)
  then show ?case by (cases i) auto
qed

lemma kahn_correct:
  assumes ok: "adj_ok adj" and inv: "kahn_inv adj (deg, [], topo)"
    and all: "length topo = length adj"
  shows "acyclic (rel_adj adj)"
proof -
  from inv have d: "distinct topo" and sub: "set topo \<subseteq> {..<length adj}"
    and ord: "\<And>i w. i < length topo \<Longrightarrow> w < length adj \<Longrightarrow> topo ! i \<in> set (adj ! w)
                 \<Longrightarrow> w \<in> set (take i topo)"
    by (auto simp: kahn_inv_def)
  from d all have "card (set topo) = card {..<length adj}" by (simp add: distinct_card)
  with sub have tous: "set topo = {..<length adj}" by (intro card_subset_eq) auto
  have "rel_adj adj \<subseteq> inv_image less_than (index topo)"
  proof
    fix e assume e: "e \<in> rel_adj adj"
    obtain u v where uv: "e = (u, v)" by (cases e) auto
    with e have u: "u < length adj" and v: "v \<in> set (adj ! u)" by (auto simp: rel_adj_def)
    with ok have "v < length adj" by (auto simp: adj_ok_def)
    with tous have "v \<in> set topo" by auto
    from index_less [OF this] have i: "index topo v < length topo" "topo ! index topo v = v"
      by auto
    from ord [OF i(1) u] i(2) v have "u \<in> set (take (index topo v) topo)" by simp
    from index_take [OF this] show "e \<in> inv_image less_than (index topo)"
      by (simp add: uv)
  qed
  moreover have "wf (inv_image less_than (index topo))" by simp
  ultimately have "wf (rel_adj adj)" by (rule wf_subset [rotated])
  then show ?thesis by (rule wf_acyclic)
qed

subsection \<open>Any elimination loop is a fold over the order of elimination\<close>

lemma elim_for_sim:
  assumes "\<And>v x. h (f1 u v x) = f2 u v (h x)"
  shows "(case elim_for f1 u vs (deg, q, x) of (d, q', y) \<Rightarrow> (d, q', h y))
         = elim_for f2 u vs (deg, q, h x)"
  using assms by (induction vs arbitrary: deg q x) auto

lemma elim_while_sim:
  assumes f: "\<And>u v x. h (f1 u v x) = f2 u v (h x)" and g: "\<And>u x. h (g1 u x) = g2 u (h x)"
  shows "map_option (\<lambda>(d, q', y). (d, q', h y)) (elim_while g1 f1 adj (deg, q, x))
         = elim_while g2 f2 adj (deg, q, h x)"
proof -
  have "map_option (\<lambda>(d, q', y). (d, q', h y)) (elim_while g1 f1 adj s)
        = elim_while g2 f2 adj ((\<lambda>(d, q', y). (d, q', h y)) s)" for s
    unfolding elim_while_def
  proof (rule while_option_commute)
    fix s :: "int list \<times> nat list \<times> 'a"
    show "(case s of (deg, q, a) \<Rightarrow> q \<noteq> [])
          = (case (case s of (d, q', y) \<Rightarrow> (d, q', h y)) of (deg, q, a) \<Rightarrow> q \<noteq> [])"
      by (cases s) auto
  next
    fix s :: "int list \<times> nat list \<times> 'a"
    obtain d q' y where s: "s = (d, q', y)" by (cases s) auto
    show "(case elim_step g1 f1 adj s of (d, q', y) \<Rightarrow> (d, q', h y))
          = elim_step g2 f2 adj (case s of (d, q', y) \<Rightarrow> (d, q', h y))"
      using elim_for_sim [of h f1 "hd q'" f2, OF f] by (simp add: s elim_step_def g)
  qed
  from this [of "(deg, q, x)"] show ?thesis by simp
qed

lemma elim_for_acc: "snd (snd (elim_for f u vs (deg, q, a))) = fold (f u) vs a"
  by (induction vs arbitrary: deg q a) auto

definition parcours ::
  "(nat \<Rightarrow> 'a \<Rightarrow> 'a) \<Rightarrow> (nat \<Rightarrow> nat \<Rightarrow> 'a \<Rightarrow> 'a) \<Rightarrow> nat list list \<Rightarrow> nat list \<Rightarrow> 'a \<Rightarrow> 'a" where
  "parcours g f adj topo a = fold (\<lambda>u x. fold (f u) (adj ! u) (g u x)) topo a"

lemma elim_while_parcours:
  assumes o: "ordre_while adj (deg, q, []) = Some (deg', q', topo)"
  shows "elim_while g f adj (deg, q, a) = Some (deg', q', parcours g f adj topo a)"
proof -
  let ?g = "\<lambda>u (t, x). (t @ [u], g u x)"
  let ?f = "\<lambda>u v (t, x). (t, f u v x)"
  let ?W = "elim_while ?g ?f adj (deg, q, ([], a))"
  have p1: "map_option (\<lambda>(d, q', y). (d, q', fst y)) ?W = ordre_while adj (deg, q, [])"
    unfolding ordre_while_def
    using elim_while_sim [where h = fst and ?f1.0 = ?f and ?g1.0 = ?g
        and ?f2.0 = "\<lambda>u v t. t" and ?g2.0 = "\<lambda>u t. t @ [u]" and x = "([], a)"]
    by (simp add: case_prod_beta)
  have p2: "map_option (\<lambda>(d, q', y). (d, q', snd y)) ?W = elim_while g f adj (deg, q, a)"
    using elim_while_sim [where h = snd and ?f1.0 = ?f and ?g1.0 = ?g
        and ?f2.0 = f and ?g2.0 = g and x = "([], a)"]
    by (simp add: case_prod_beta)
  from p1 o obtain y where W: "?W = Some (deg', q', y)" and y: "fst y = topo"
    by (cases ?W) auto
  have "(\<lambda>(d, q', (t, x)). x = parcours g f adj t a) (deg', q', y)"
  proof (rule while_option_rule [where P = "\<lambda>(d, q', (t, x)). x = parcours g f adj t a",
        OF _ W [unfolded elim_while_def]])
    show "case (deg, q, [], a) of (d, q', t, x) \<Rightarrow> x = parcours g f adj t a"
      by (simp add: parcours_def)
  next
    fix s :: "int list \<times> nat list \<times> nat list \<times> 'a"
    assume P: "case s of (d, q', t, x) \<Rightarrow> x = parcours g f adj t a"
    obtain d q' t x where s: "s = (d, q', t, x)" by (cases s) auto
    have ff: "fold (?f u) vs (t', x') = (t', fold (f u) vs x')" for u vs t' x'
      by (induction vs arbitrary: x') auto
    from P s have x: "x = parcours g f adj t a" by simp
    obtain d2 q2 t2 x2 where s2: "elim_step ?g ?f adj (d, q', t, x) = (d2, q2, t2, x2)"
      by (cases "elim_step ?g ?f adj (d, q', t, x)") auto
    from elim_for_acc [of ?f "hd q'" "adj ! hd q'" d "tl q'" "(t @ [hd q'], g (hd q') x)"] s2
    have "(t2, x2) = (t @ [hd q'], fold (f (hd q')) (adj ! hd q') (g (hd q') x))"
      by (simp add: elim_step_def ff)
    then have "x2 = parcours g f adj t2 a" by (simp add: x parcours_def)
    then show "case elim_step ?g ?f adj s of (d, q', t, x) \<Rightarrow> x = parcours g f adj t a"
      unfolding s s2 by simp
  qed
  with y have "snd y = parcours g f adj topo a" by (cases y) auto
  with p2 W show ?thesis by (cases y) auto
qed

section \<open>The graph of a matrix\<close>

definition aretes :: "matrice \<Rightarrow> (nat \<times> nat) set" where
  "aretes m = {(i, j). i < length m \<and> j < length m \<and> m ! i ! j \<noteq> None}"

definition adj_de :: "matrice \<Rightarrow> nat list list" where
  "adj_de m = map (succs m) [0..<length m]"

definition rev_adj_de :: "matrice \<Rightarrow> nat list list" where
  "rev_adj_de m = map (preds m) [0..<length m]"

definition relaxer ::
  "('b \<Rightarrow> 'b \<Rightarrow> bool) \<Rightarrow> (nat \<Rightarrow> nat \<Rightarrow> 'b \<Rightarrow> 'b) \<Rightarrow> nat \<Rightarrow> nat \<Rightarrow> 'b list \<Rightarrow> 'b list" where
  "relaxer lt ext u v r = (if lt (r ! v) (ext u v (r ! u)) then r[v := ext u v (r ! u)] else r)"

lemma adj_ok_adj_de: "adj_ok (adj_de m)"
  by (auto simp: adj_ok_def adj_de_def succs_def)

lemma adj_ok_rev_adj_de: "adj_ok (rev_adj_de m)"
  by (auto simp: adj_ok_def rev_adj_de_def preds_def)

lemma length_adj_de [simp]: "length (adj_de m) = length m"
  by (simp add: adj_de_def)

lemma length_rev_adj_de [simp]: "length (rev_adj_de m) = length m"
  by (simp add: rev_adj_de_def)

lemma rel_adj_de: "rel_adj (adj_de m) = aretes m"
  by (auto simp: rel_adj_def adj_de_def aretes_def succs_def)

lemma rel_rev_adj_de: "rel_adj (rev_adj_de m) = (aretes m)\<inverse>"
  by (auto simp: rel_adj_def rev_adj_de_def aretes_def preds_def)

lemma degres_adj_de: "degres (adj_de m) = map (\<lambda>v. int (length (preds m v))) [0..<length m]"
proof -
  have "card (reste (adj_de m) [] v) = length (preds m v)" if "v < length m" for v
  proof -
    have "reste (adj_de m) [] v = set (preds m v)"
      using that by (auto simp: reste_def adj_de_def succs_def preds_def)
    moreover have "distinct (preds m v)" by (simp add: preds_def)
    ultimately show ?thesis by (simp add: distinct_card)
  qed
  then show ?thesis by (simp add: degres_def)
qed

lemma degres_rev_adj_de:
  "degres (rev_adj_de m) = map (\<lambda>u. int (length (succs m u))) [0..<length m]"
proof -
  have "card (reste (rev_adj_de m) [] u) = length (succs m u)" if "u < length m" for u
  proof -
    have "reste (rev_adj_de m) [] u = set (succs m u)"
      using that by (auto simp: reste_def rev_adj_de_def succs_def preds_def)
    moreover have "distinct (succs m u)" by (simp add: succs_def)
    ultimately show ?thesis by (simp add: distinct_card)
  qed
  then show ?thesis by (simp add: degres_def)
qed

lemma construire_adj_degres: "construire_adj m = (adj_de m, degres (adj_de m))"
  by (simp add: construire_adj_eq adj_de_def [symmetric] degres_adj_de)

lemma construire_rev_adj_degres: "construire_rev_adj m = (rev_adj_de m, degres (rev_adj_de m))"
  by (simp add: construire_rev_adj_eq rev_adj_de_def [symmetric] degres_rev_adj_de)

subsection \<open>The order of elimination of a graph\<close>

lemma ordre_existe:
  assumes "adj_ok adj"
  shows "\<exists>deg topo. ordre_while adj (degres adj, points_entree (length adj) (degres adj), [])
                       = Some (deg, [], topo) \<and> kahn_inv adj (deg, [], topo)"
proof -
  from ordre_termine [OF assms kahn_inv_init] obtain t where
    t: "ordre_while adj (degres adj, points_entree (length adj) (degres adj), []) = Some t"
    by blast
  obtain deg q topo where "t = (deg, q, topo)" by (cases t) auto
  with t ordre_final [OF assms kahn_inv_init, of deg q topo] show ?thesis by auto
qed

subsection \<open>The four loops of the source are elimination loops\<close>

lemma circuit_for_elim:
  "elim_for (\<lambda>u v a. a) u vs (deg, q, a) = (case circuit_for vs (deg, q) of (d, q') \<Rightarrow> (d, q', a))"
  by (induction vs arbitrary: deg q) (auto simp: Let_def)

lemma circuit_while_elim:
  "circuit_while adj = elim_while (\<lambda>u (c, t). (c + 1, t @ [u])) (\<lambda>u v a. a) adj"
proof -
  have "(\<lambda>(in_degree, queue, count :: nat, topo_order).
          let u = hd queue; queue = tl queue; topo_order = topo_order @ [u];
              (in_degree, queue) = circuit_for (adj ! u) (in_degree, queue)
          in (in_degree, queue, count + 1, topo_order))
        = elim_step (\<lambda>u (c, t). (c + 1, t @ [u])) (\<lambda>u v a. a) adj"
    by (auto simp: fun_eq_iff elim_step_def circuit_for_elim Let_def split: prod.splits)
  moreover have "(\<lambda>(in_degree :: int list, queue :: nat list, count :: nat, topo_order :: nat list).
          queue \<noteq> []) = (\<lambda>(deg, q, a). q \<noteq> [])"
    by (auto simp: fun_eq_iff)
  ultimately show ?thesis unfolding circuit_while_def elim_while_def by (simp only:)
qed

lemma rangs_for_elim:
  "rangs_for u vs st = elim_for (relaxer (<) (\<lambda>u v x. x + 1)) u vs st"
proof (induction vs arbitrary: st)
  case Nil
  then show ?case by (cases st) auto
next
  case (Cons v vs)
  then show ?case by (cases st) (auto simp: Let_def relaxer_def)
qed

lemma rangs_while_elim:
  "rangs_while adj = elim_while (\<lambda>u a. a) (relaxer (<) (\<lambda>u v x. x + 1)) adj"
  by (simp add: rangs_while_def elim_while_def elim_step_def rangs_for_elim Let_def)

lemma tot_for_elim:
  "tot_for m u vs st = elim_for (relaxer (<) (\<lambda>u v x. x + poids m u v)) u vs st"
proof (induction vs arbitrary: st)
  case Nil
  then show ?case by (cases st) auto
next
  case (Cons v vs)
  then show ?case by (cases st) (auto simp: Let_def relaxer_def)
qed

lemma tot_while_elim:
  "tot_while m adj = elim_while (\<lambda>u a. a) (relaxer (<) (\<lambda>u v x. x + poids m u v)) adj"
  by (simp add: tot_while_def elim_while_def elim_step_def tot_for_elim Let_def)

text \<open>
  The backward loop subtracts from a latest date, which can fail. Without the failure it
  is an elimination loop; with it, it ends with the same state, or with the failure.
\<close>

fun moins_pur :: "date \<Rightarrow> int \<Rightarrow> date" where
  "moins_pur (Fin a) w = Fin (a - w)"
| "moins_pur Infini w = Infini"

lemma moins_cases:
  "moins x w = Inr (moins_pur x w) \<or>
   (moins x w = Inl OverflowError \<and> x = Infini \<and> \<not> flottant w)"
  by (cases x) auto

lemma tard_maj_cases:
  "tard_maj m u v late
     = Inr (relaxer plus_grand (\<lambda>u v x. moins_pur x (poids m v u)) u v late) \<or>
   (tard_maj m u v late = Inl OverflowError \<and> late ! u = Infini \<and> \<not> flottant (poids m v u))"
  using moins_cases [of "late ! u" "poids m v u"] by (auto simp: tard_maj_def relaxer_def)

lemma tard_for_elim:
  "tard_for m u vs st
     = Inr (elim_for (relaxer plus_grand (\<lambda>u v x. moins_pur x (poids m v u))) u vs st) \<or>
   tard_for m u vs st = Inl OverflowError"
proof (induction vs arbitrary: st)
  case Nil
  then show ?case by (cases st) auto
next
  case (Cons v vs)
  obtain deg q late where st: "st = (deg, q, late)" by (cases st)
  from tard_maj_cases [of m u v late] show ?case
  proof
    assume a: "tard_maj m u v late
      = Inr (relaxer plus_grand (\<lambda>u v x. moins_pur x (poids m v u)) u v late)"
    show ?thesis
      using Cons.IH [of "(deg[v := deg ! v - 1],
          (if deg[v := deg ! v - 1] ! v = 0 then q @ [v] else q),
          relaxer plus_grand (\<lambda>u v x. moins_pur x (poids m v u)) u v late)"]
      by (simp add: st a Let_def)
  next
    assume "tard_maj m u v late = Inl OverflowError \<and> late ! u = Infini \<and>
      \<not> flottant (poids m v u)"
    then show ?thesis by (simp add: st)
  qed
qed

lemma while_option_erreur:
  fixes c' :: "'e + 's \<Rightarrow> 'e + 's"
  assumes run: "while_option b c s = Some t"
    and step: "\<And>s. b s \<Longrightarrow> c' (Inr s) = Inr (c s) \<or> c' (Inr s) = Inl e0"
    and b1: "\<And>s. b' (Inr s) = b s" and b2: "\<And>e. \<not> b' (Inl e)"
  shows "while_option b' c' (Inr s) = Some (Inr t) \<or> while_option b' c' (Inr s) = Some (Inl e0)"
proof -
  from while_option_stop2 [OF run] obtain k where k: "t = (c ^^ k) s" by blast
  from run k show ?thesis
  proof (induction k arbitrary: s)
    case 0
    from while_option_stop [OF 0(1)] 0(2) have "\<not> b' (Inr s)" by (simp add: b1)
    then have "while_option b' c' (Inr s) = Some (Inr s)"
      by (subst while_option_unfold) simp
    with 0 show ?case by simp
  next
    case (Suc k)
    show ?case
    proof (cases "b s")
      case False
      with Suc.prems(1) have ts: "t = s" by (subst (asm) while_option_unfold) simp
      from False have "\<not> b' (Inr s)" by (simp add: b1)
      then have "while_option b' c' (Inr s) = Some (Inr s)"
        by (subst while_option_unfold) simp
      with ts show ?thesis by simp
    next
      case True
      then have u: "while_option b' c' (Inr s) = while_option b' c' (c' (Inr s))"
        by (subst while_option_unfold) (simp add: b1)
      from True Suc.prems(1) have r: "while_option b c (c s) = Some t"
        by (subst (asm) while_option_unfold) simp
      from step [OF True] show ?thesis
      proof
        assume a: "c' (Inr s) = Inr (c s)"
        have 1: "t = (c ^^ k) (c s)" using Suc.prems(2) by (simp add: funpow_swap1)
        from Suc.IH [OF r 1] u a show ?thesis by simp
      next
        assume a: "c' (Inr s) = Inl e0"
        have "while_option b' c' (Inl e0) = Some (Inl e0)"
          by (subst while_option_unfold) (simp add: b2)
        with u a show ?thesis by simp
      qed
    qed
  qed
qed

lemma tard_while_elim:
  assumes "elim_while (\<lambda>u a. a) (relaxer plus_grand (\<lambda>u v x. moins_pur x (poids m v u))) adj st
             = Some st'"
  shows "tard_while m adj st = Some (Inr st') \<or> tard_while m adj st = Some (Inl OverflowError)"
  unfolding tard_while_def
proof (rule while_option_erreur [OF assms [unfolded elim_while_def]])
  fix s :: "int list \<times> nat list \<times> date list"
  obtain deg q late where s: "s = (deg, q, late)" by (cases s)
  show "(case Inr s of Inl e \<Rightarrow> Inl e
         | Inr (rev_in_degree, queue, late) \<Rightarrow>
             (let u = hd queue; queue = tl queue
              in tard_for m u (adj ! u) (rev_in_degree, queue, late)))
        = Inr (elim_step (\<lambda>u a. a) (relaxer plus_grand (\<lambda>u v x. moins_pur x (poids m v u))) adj s) \<or>
        (case Inr s of Inl e \<Rightarrow> Inl e
         | Inr (rev_in_degree, queue, late) \<Rightarrow>
             (let u = hd queue; queue = tl queue
              in tard_for m u (adj ! u) (rev_in_degree, queue, late)))
        = Inl OverflowError"
    using tard_for_elim [of m "hd q" "adj ! hd q" "(deg, tl q, late)"]
    by (simp add: s elim_step_def Let_def)
  show "(case Inr s of Inl e \<Rightarrow> False | Inr (rev_in_degree, queue, late) \<Rightarrow> queue \<noteq> [])
        = (case s of (deg, q, a) \<Rightarrow> q \<noteq> [])"
    by (simp add: s)
next
  fix e :: error
  show "\<not> (case Inl e of Inl e \<Rightarrow> False
            | Inr (rev_in_degree :: int list, queue :: nat list, late :: date list) \<Rightarrow> queue \<noteq> [])"
    by simp
qed

lemma calcul_marges_cases:
  "calcul_marges late early is = Inr (map (\<lambda>i. moins_pur (late ! i) (early ! i)) is) \<or>
   calcul_marges late early is = Inl OverflowError"
proof (induction "is")
  case Nil
  show ?case by simp
next
  case (Cons i rest)
  from moins_cases [of "late ! i" "early ! i"] Cons show ?case by auto
qed

lemma parcours_compte:
  "parcours (\<lambda>u (c, t). (c + 1, t @ [u])) (\<lambda>u v a. a) adj topo (c, t)
     = (c + length topo, t @ topo)"
  unfolding parcours_def by (induction topo arbitrary: c t) (auto simp: fold_ignore)

lemma length_relaxer [simp]: "length (relaxer lt ext u v r) = length r"
  by (simp add: relaxer_def)

lemma length_parcours_relaxer [simp]:
  "length (parcours (\<lambda>u a. a) (relaxer lt ext) adj topo r) = length r"
proof -
  have "length (fold (relaxer lt ext u) vs r) = length r" for u vs r
    by (induction vs arbitrary: r) auto
  then show ?thesis unfolding parcours_def by (induction topo arbitrary: r) auto
qed

section \<open>Closed forms of the rank and calendar methods\<close>

definition ordre :: "nat list list \<Rightarrow> nat list" where
  "ordre adj =
     (case ordre_while adj (degres adj, points_entree (length adj) (degres adj), []) of
        Some (deg, q, topo) \<Rightarrow> topo
      | None \<Rightarrow> [])"

lemma ordre_spec:
  assumes "adj_ok adj"
  shows "\<exists>deg. ordre_while adj (degres adj, points_entree (length adj) (degres adj), [])
                  = Some (deg, [], ordre adj) \<and> kahn_inv adj (deg, [], ordre adj)"
  using ordre_existe [OF assms] by (auto simp: ordre_def)

lemma elim_while_ordre:
  assumes "adj_ok adj"
  shows "\<exists>deg. elim_while g f adj (degres adj, points_entree (length adj) (degres adj), a)
                  = Some (deg, [], parcours g f adj (ordre adj) a)"
proof -
  from ordre_spec [OF assms] obtain deg where
    "ordre_while adj (degres adj, points_entree (length adj) (degres adj), [])
       = Some (deg, [], ordre adj)"
    by blast
  from elim_while_parcours [OF this, of g f a] show ?thesis by blast
qed

lemma calculer_rangs_eq:
  assumes "matrix s = Some m" "m \<noteq> []"
  shows "calculer_rangs s =
           Some (Some (parcours (\<lambda>u a. a) (relaxer (<) (\<lambda>u v x. x + 1)) (adj_de m)
                         (ordre (adj_de m)) (replicate (length m) 0)))"
proof -
  from elim_while_ordre [OF adj_ok_adj_de, of "\<lambda>u a. a" "relaxer (<) (\<lambda>u v x. x + 1)" m
      "replicate (length m) (0::int)"]
  obtain deg where "rangs_while (adj_de m)
      (degres (adj_de m), points_entree (length m) (degres (adj_de m)), replicate (length m) 0)
    = Some (deg, [], parcours (\<lambda>u a. a) (relaxer (<) (\<lambda>u v x. x + 1)) (adj_de m)
                         (ordre (adj_de m)) (replicate (length m) 0))"
    by (auto simp: rangs_while_elim)
  with assms show ?thesis
    by (simp add: calculer_rangs_def construire_adj_degres Let_def)
qed

definition tot_de :: "matrice \<Rightarrow> int list" where
  "tot_de m = parcours (\<lambda>u a. a) (relaxer (<) (\<lambda>u v x. x + poids m u v)) (adj_de m)
                (ordre (adj_de m)) (replicate (length m) 0)"

definition tard_de :: "matrice \<Rightarrow> nat \<Rightarrow> date list" where
  "tard_de m om = parcours (\<lambda>u a. a) (relaxer plus_grand (\<lambda>u v x. moins_pur x (poids m v u)))
                    (rev_adj_de m) (ordre (rev_adj_de m))
                    ((replicate (length m) Infini)[om := Fin (tot_de m ! om)])"

lemma length_tot_de [simp]: "length (tot_de m) = length m"
  by (simp add: tot_de_def)

lemma length_tard_de [simp]: "length (tard_de m om) = length m"
  by (simp add: tard_de_def)

lemma calculer_calendriers_eq:
  assumes "matrix s = Some m" "m \<noteq> []" "omega s < length m"
  shows "calculer_calendriers s =
           Some (Inr (Some (tot_de m, tard_de m (omega s),
                            map (\<lambda>i. moins_pur (tard_de m (omega s) ! i) (tot_de m ! i))
                              [0..<length m]))) \<or>
         calculer_calendriers s = Some (Inl OverflowError)"
proof -
  from elim_while_ordre [OF adj_ok_adj_de, of "\<lambda>u a. a"
      "relaxer (<) (\<lambda>u v x. x + poids m u v)" m "replicate (length m) (0::int)"]
  obtain deg where t: "tot_while m (adj_de m)
      (degres (adj_de m), points_entree (length m) (degres (adj_de m)), replicate (length m) 0)
    = Some (deg, [], tot_de m)"
    by (auto simp: tot_while_elim tot_de_def)
  from elim_while_ordre [OF adj_ok_rev_adj_de, of "\<lambda>u a. a"
      "relaxer plus_grand (\<lambda>u v x. moins_pur x (poids m v u))" m
      "(replicate (length m) Infini)[omega s := Fin (tot_de m ! omega s)]"]
  obtain deg' where "elim_while (\<lambda>u a. a)
      (relaxer plus_grand (\<lambda>u v x. moins_pur x (poids m v u))) (rev_adj_de m)
      (degres (rev_adj_de m), points_entree (length m) (degres (rev_adj_de m)),
       (replicate (length m) Infini)[omega s := Fin (tot_de m ! omega s)])
    = Some (deg', [], tard_de m (omega s))"
    by (auto simp: tard_de_def)
  from tard_while_elim [OF this]
  have l: "tard_while m (rev_adj_de m)
      (degres (rev_adj_de m), points_entree (length m) (degres (rev_adj_de m)),
       (replicate (length m) Infini)[omega s := Fin (tot_de m ! omega s)])
    = Some (Inr (deg', [], tard_de m (omega s))) \<or>
    tard_while m (rev_adj_de m)
      (degres (rev_adj_de m), points_entree (length m) (degres (rev_adj_de m)),
       (replicate (length m) Infini)[omega s := Fin (tot_de m ! omega s)])
    = Some (Inl OverflowError)" .
  from l show ?thesis
  proof
    assume l1: "tard_while m (rev_adj_de m)
      (degres (rev_adj_de m), points_entree (length m) (degres (rev_adj_de m)),
       (replicate (length m) Infini)[omega s := Fin (tot_de m ! omega s)])
      = Some (Inr (deg', [], tard_de m (omega s)))"
    from calcul_marges_cases [of "tard_de m (omega s)" "tot_de m" "[0..<length m]"]
    show ?thesis
    proof
      assume "calcul_marges (tard_de m (omega s)) (tot_de m) [0..<length m]
        = Inr (map (\<lambda>i. moins_pur (tard_de m (omega s) ! i) (tot_de m ! i)) [0..<length m])"
      with assms t l1 show ?thesis
        by (simp add: calculer_calendriers_def construire_adj_degres construire_rev_adj_degres
            Let_def)
    next
      assume "calcul_marges (tard_de m (omega s)) (tot_de m) [0..<length m] = Inl OverflowError"
      with assms t l1 show ?thesis
        by (simp add: calculer_calendriers_def construire_adj_degres construire_rev_adj_degres
            Let_def)
    qed
  next
    assume "tard_while m (rev_adj_de m)
      (degres (rev_adj_de m), points_entree (length m) (degres (rev_adj_de m)),
       (replicate (length m) Infini)[omega s := Fin (tot_de m ! omega s)])
      = Some (Inl OverflowError)"
    with assms t show ?thesis
      by (simp add: calculer_calendriers_def construire_adj_degres construire_rev_adj_degres
          Let_def)
  qed
qed

subsection \<open>The shape of a built matrix\<close>

definition carree :: "matrice \<Rightarrow> bool" where
  "carree m \<longleftrightarrow> (\<forall>row\<in>set m. length row = length m)"

lemma py_index_Some: "py_index len i = Some r \<Longrightarrow> r < len"
  by (auto simp: py_index_def split: if_splits)

lemma set_cell_shape:
  assumes "set_cell m i j v = Inr m'"
  shows "length m' = length m \<and> (\<forall>r<length m. length (m' ! r) = length (m ! r))"
proof -
  from assms obtain r c where r: "py_index (length m) i = Some r"
    and m': "m' = m[r := (m ! r)[c := Some v]]"
    by (auto simp: set_cell_def split: option.splits)
  from py_index_Some [OF r] have "r < length m" .
  with m' show ?thesis by (auto simp: nth_list_update)
qed

lemma arcs_alpha_shape:
  "arcs_alpha a tt m = Inr m' \<Longrightarrow>
   length m' = length m \<and> (\<forall>r<length m. length (m' ! r) = length (m ! r))"
proof (induction a tt m rule: arcs_alpha.induct)
  case (1 a m)
  then show ?case by simp
next
  case (2 a task duration predecessors rest m)
  show ?case
  proof (cases "predecessors = []")
    case True
    with 2(3) obtain m1 where s: "set_cell m (int a) task 0 = Inr m1"
      and r: "arcs_alpha a rest m1 = Inr m'"
      by (auto split: sum.splits)
    from 2(1) [OF True s r] set_cell_shape [OF s] show ?thesis by auto
  next
    case False
    with 2 show ?thesis by simp
  qed
qed

lemma arcs_pred_shape:
  "arcs_pred tt task ps m = Inr m' \<Longrightarrow>
   length m' = length m \<and> (\<forall>r<length m. length (m' ! r) = length (m ! r))"
proof (induction tt task ps m rule: arcs_pred.induct)
  case (1 tt task m)
  then show ?case by simp
next
  case (2 tt task pred preds m)
  from 2(2) obtain d ps m1 where l: "map_of tt pred = Some (d, ps)"
    and s: "set_cell m pred task d = Inr m1"
    and r: "arcs_pred tt task preds m1 = Inr m'"
    by (auto split: option.splits sum.splits)
  from 2(1) [OF l refl s r] set_cell_shape [OF s] show ?case by auto
qed

lemma arcs_taches_shape:
  "arcs_taches tt ts m = Inr m' \<Longrightarrow>
   length m' = length m \<and> (\<forall>r<length m. length (m' ! r) = length (m ! r))"
proof (induction tt ts m rule: arcs_taches.induct)
  case (1 tt m)
  then show ?case by simp
next
  case (2 tt task duration predecessors rest m)
  from 2(2) obtain m1 where s: "arcs_pred tt task predecessors m = Inr m1"
    and r: "arcs_taches tt rest m1 = Inr m'"
    by (auto split: sum.splits)
  from 2(1) [OF s r] arcs_pred_shape [OF s] show ?case by auto
qed

lemma arcs_omega_shape:
  "arcs_omega tt om sz is m = Inr m' \<Longrightarrow>
   length m' = length m \<and> (\<forall>r<length m. length (m' ! r) = length (m ! r))"
proof (induction tt om sz "is" m rule: arcs_omega.induct)
  case (1 tt om sz m)
  then show ?case by simp
next
  case (2 tt om sz i rest m)
  show ?case
  proof (cases "map_of tt (int i)")
    case None
    with 2(1) [OF refl None] 2(4) show ?thesis by (simp add: Let_def)
  next
    case (Some a)
    obtain d ps where a: "a = (d, ps)" by (cases a) auto
    show ?thesis
    proof (cases "i \<noteq> om \<and> \<not> list_ex (\<lambda>j. m ! i ! j \<noteq> None) [0..<sz]")
      case True
      with 2(4) Some a obtain m1 where s: "set_cell m (int i) (int om) d = Inr m1"
        and r: "arcs_omega tt om sz rest m1 = Inr m'"
        by (auto simp: Let_def split: sum.splits)
      from 2(2) [OF refl Some [unfolded a] refl True s r] set_cell_shape [OF s]
      show ?thesis by auto
    next
      case False
      with 2(3) [OF refl Some [unfolded a] refl False] 2(4) Some a show ?thesis
        by (auto simp: Let_def)
    qed
  qed
qed

lemma construire_graphe_shape:
  assumes "construire_graphe s = Inr s'"
  shows "\<exists>m. matrix s' = Some m \<and> length m = n s + 2 \<and> carree m \<and>
             tasks s' = tasks s \<and> n s' = n s \<and> alpha s' = alpha s \<and> omega s' = omega s"
proof -
  define sz where "sz = n s + 2"
  define m0 where "m0 = replicate sz (replicate sz (None :: int option))"
  from assms obtain m1 m2 m3 where
    a: "arcs_alpha (alpha s) (tasks s) m0 = Inr m1"
    and b: "arcs_taches (tasks s) (tasks s) m1 = Inr m2"
    and c: "arcs_omega (tasks s) (omega s) sz [0..<sz] m2 = Inr m3"
    and s': "s' = s\<lparr>matrix := Some m3\<rparr>"
    unfolding construire_graphe_def Let_def sz_def [symmetric] m0_def [symmetric]
    by (auto split: sum.splits)
  have 0: "length m0 = sz" "\<forall>r<sz. length (m0 ! r) = sz" by (simp_all add: m0_def)
  with arcs_alpha_shape [OF a]
  have 1: "length m1 = sz" "\<forall>r<sz. length (m1 ! r) = sz" by auto
  with arcs_taches_shape [OF b]
  have 2: "length m2 = sz" "\<forall>r<sz. length (m2 ! r) = sz" by auto
  with arcs_omega_shape [OF c]
  have 3: "length m3 = sz" "\<forall>r<sz. length (m3 ! r) = sz" by auto
  then have "carree m3" by (auto simp: carree_def in_set_conv_nth)
  with 3 s' show ?thesis by (simp add: sz_def)
qed

lemma lire_construit:
  assumes "construire_graphe (lire_fichier tt s0) = Inr s"
  shows "\<exists>m. matrix s = Some m \<and> length m = length tt + 2 \<and> carree m \<and> tasks s = tt \<and>
             n s = length tt \<and> alpha s = alpha s0 \<and> omega s = length tt + 1"
  using construire_graphe_shape [OF assms] by (auto simp: lire_fichier_def)

section \<open>The recursion bound of the path enumeration\<close>

lemma chemins_plus:
  "chemins_dfs k adj om node st = Some r \<Longrightarrow> chemins_dfs (k + d) adj om node st = Some r"
  "chemins_for k adj om vs st = Some r \<Longrightarrow> chemins_for (k + d) adj om vs st = Some r"
proof (induction k adj om node st and k adj om vs st arbitrary: r and r
    rule: chemins_dfs_chemins_for.induct)
  case (1 adj om node chemin chemins)
  then show ?case by simp
next
  case (2 k adj om node chemin chemins)
  show ?case
  proof (cases "node = om")
    case True
    with 2(2) show ?thesis by (simp add: Let_def)
  next
    case False
    with 2(2) obtain st' where
      a: "chemins_for k adj om (adj ! node) (chemin @ [node], chemins) = Some st'"
      by (auto simp: Let_def split: option.splits)
    from 2(1) [OF refl False a] a 2(2) False show ?thesis
      by (auto simp: Let_def split: option.splits)
  qed
next
  case (3 k adj om chemin chemins)
  then show ?case by auto
next
  case (4 k adj om neighbor rest chemin chemins)
  from 4(3) obtain st' where
    a: "chemins_dfs k adj om neighbor (chemin, chemins) = Some st'"
    and b: "chemins_for k adj om rest st' = Some r"
    by (auto split: option.splits)
  from 4(1) [OF a] 4(2) [OF a b] show ?case by simp
qed

lemma trouver_chemins_plus:
  "trouver_chemins_critiques k s early late = Some r
     \<Longrightarrow> trouver_chemins_critiques (k + d) s early late = Some r"
  unfolding trouver_chemins_critiques_def
  by (auto simp: Let_def chemins_plus split: option.splits sum.splits if_splits prod.splits)

section \<open>The worked scenario (C2)\<close>

lemma exemple_construit: "construire_graphe (lire_fichier exemple init) = Inr graphe_exemple"
  by code_simp

lemma exemple_arcs:
  "map_option arcs (matrix graphe_exemple) =
     Some [(0, 1, 0), (0, 2, 0), (1, 3, 3), (2, 3, 2), (3, 4, 4), (4, 5, 1)]"
  by code_simp

lemma exemple_calendriers:
  "calculer_calendriers graphe_exemple =
     Some (Inr (Some ([0, 0, 0, 3, 7, 8],
                      [Fin 0, Fin 0, Fin 1, Fin 3, Fin 7, Fin 8],
                      [Fin 0, Fin 0, Fin 1, Fin 0, Fin 0, Fin 0])))"
  by code_simp

lemma exemple_chemins:
  "trouver_chemins_critiques 6 graphe_exemple (Some [0, 0, 0, 3, 7, 8])
      (Some [Fin 0, Fin 0, Fin 1, Fin 3, Fin 7, Fin 8])
     = Some (Inr (Some [[0, 1, 3, 4, 5]]))"
  by code_simp

text \<open>
  C2, as the specification states it: on the table \<open>exemple\<close> the latest dates are
  \<open>[0, 1, 2, 3, 7, 8]\<close>. The code gives task 1 the latest date 0 and task 2 the latest
  date 1, so the stated array is not the one returned.
\<close>

theorem C2_latest_counterexample:
  "construire_graphe (lire_fichier exemple init) = Inr graphe_exemple \<and>
   dates_tard graphe_exemple \<noteq> Some [Fin 0, Fin 1, Fin 2, Fin 3, Fin 7, Fin 8]"
  by (simp add: exemple_construit dates_tard_def exemple_calendriers)

text \<open>
  C2, amended: on the table \<open>exemple\<close> (\<open>n = 4\<close>, \<open>alpha = 0\<close>, \<open>omega = 5\<close>) the graph has
  exactly the arcs 0\<rightarrow>1 (0), 0\<rightarrow>2 (0), 1\<rightarrow>3 (3), 2\<rightarrow>3 (2), 3\<rightarrow>4 (4), 4\<rightarrow>5 (1); the earliest dates
  are \<open>[0, 0, 0, 3, 7, 8]\<close>, the latest dates \<open>[0, 0, 1, 3, 7, 8]\<close>, the total duration
  (the earliest date of \<open>omega\<close>) is 8, and the enumeration, given a recursion depth of at
  least 6, returns exactly the path 0\<rightarrow>1\<rightarrow>3\<rightarrow>4\<rightarrow>5.
\<close>

theorem C2_exemple:
  "construire_graphe (lire_fichier exemple init) = Inr graphe_exemple \<and>
   n graphe_exemple = 4 \<and> alpha graphe_exemple = 0 \<and> omega graphe_exemple = 5 \<and>
   map_option arcs (matrix graphe_exemple) =
     Some [(0, 1, 0), (0, 2, 0), (1, 3, 3), (2, 3, 2), (3, 4, 4), (4, 5, 1)] \<and>
   dates_tot graphe_exemple = Some [0, 0, 0, 3, 7, 8] \<and>
   dates_tard graphe_exemple = Some [Fin 0, Fin 0, Fin 1, Fin 3, Fin 7, Fin 8] \<and>
   map_option (\<lambda>early. early ! omega graphe_exemple) (dates_tot graphe_exemple) = Some 8 \<and>
   trouver_chemins_critiques (6 + k) graphe_exemple (dates_tot graphe_exemple)
       (dates_tard graphe_exemple)
     = Some (Inr (Some [[0, 1, 3, 4, 5]]))"
proof -
  have tot: "dates_tot graphe_exemple = Some [0, 0, 0, 3, 7, 8]"
    by (simp add: dates_tot_def exemple_calendriers)
  have tard: "dates_tard graphe_exemple = Some [Fin 0, Fin 0, Fin 1, Fin 3, Fin 7, Fin 8]"
    by (simp add: dates_tard_def exemple_calendriers)
  have om: "omega graphe_exemple = 5" "n graphe_exemple = 4" "alpha graphe_exemple = 0"
    by (simp_all add: graphe_exemple_def)
  show ?thesis
    using trouver_chemins_plus [OF exemple_chemins, of k]
    by (simp add: exemple_construit exemple_arcs tot tard om)
qed

section \<open>The circuit scenario (C1)\<close>

lemma circuit_construit:
  "construire_graphe (lire_fichier exemple_circuit init) = Inr graphe_circuit"
  by code_simp

text \<open>
  C1 asks for the circuit as a sequence of vertices that ends where it began, and for the
  table \<open>exemple_circuit\<close> for a sequence that holds the vertices 1 and 2. The search finds
  the circuit \<open>[1, 2, 1]\<close> two calls deep, and the outer call turns it into \<^verbatim>\<open>True\<close>: what
  \<open>detecter_circuit\<close> returns is the boolean, not a sequence of vertices.
\<close>

theorem C1_circuit_est_True:
  "construire_graphe (lire_fichier exemple_circuit init) = Inr graphe_circuit \<and>
   map_option detecter_circuit (matrix graphe_circuit) = Some (Some PyTrue)"
proof -
  have "map_option detecter_circuit (matrix graphe_circuit) = Some (Some PyTrue)"
    by code_simp
  then show ?thesis by (simp add: circuit_construit)
qed

section \<open>Rank and calendar computation on a graph that is not valid (C8)\<close>

lemma circuit_non_valide: "verifier_proprietes graphe_circuit = Some False"
  by code_simp

lemma circuit_rangs: "calculer_rangs graphe_circuit = Some (Some [0, 0, 0, 0])"
  by code_simp

lemma circuit_calendriers:
  "calculer_calendriers graphe_circuit =
     Some (Inr (Some ([0, 0, 0, 0], [Infini, Infini, Infini, Fin 0],
                      [Infini, Infini, Infini, Fin 0])))"
  by code_simp

text \<open>
  C8, as the specification states it: rank or calendar computation on a graph that has
  not passed validation fails. On the graph of \<open>exemple_circuit\<close>, which holds the circuit
  1\<rightarrow>2\<rightarrow>1 and is refused by \<open>verifier_proprietes\<close>, both methods return arrays.
\<close>

theorem C8_counterexample:
  "construire_graphe (lire_fichier exemple_circuit init) = Inr graphe_circuit \<and>
   verifier_proprietes graphe_circuit = Some False \<and>
   calculer_rangs graphe_circuit = Some (Some [0, 0, 0, 0]) \<and>
   calculer_calendriers graphe_circuit =
     Some (Inr (Some ([0, 0, 0, 0], [Infini, Infini, Infini, Fin 0],
                      [Infini, Infini, Infini, Fin 0])))"
  by (simp add: circuit_construit circuit_non_valide circuit_rangs circuit_calendriers)

text \<open>
  On the table \<open>exemple_debordement\<close> the circuit 2\<rightarrow>3\<rightarrow>2 keeps the latest date of vertex 2
  infinite, its earliest date is \<^verbatim>\<open>2**1024\<close>, and the margin of vertex 2 raises
  \<^verbatim>\<open>OverflowError\<close>.
\<close>

lemma debordement_calendriers:
  "map_sum id calculer_calendriers (construire_graphe (lire_fichier exemple_debordement init))
     = Inr (Some (Inl OverflowError))"
  by code_simp

text \<open>
  C8, amended: the two methods test nothing but the presence of the matrix. On every graph
  that \<open>construire_graphe\<close> has built from a loaded table, valid or not, the loops of both
  methods end; \<open>calculer_rangs\<close> returns an array of \<open>n + 2\<close> ranks, and
  \<open>calculer_calendriers\<close> returns three arrays of \<open>n + 2\<close> entries, unless it raises
  \<^verbatim>\<open>OverflowError\<close> (an infinite latest date minus an integer outside the range of a
  float), the only exception it can raise there.
\<close>

theorem C8_sans_garde:
  assumes "construire_graphe (lire_fichier tt s0) = Inr s"
  shows "(\<exists>ranks. calculer_rangs s = Some (Some ranks) \<and> length ranks = length tt + 2) \<and>
         ((\<exists>early late margins.
             calculer_calendriers s = Some (Inr (Some (early, late, margins))) \<and>
             length early = length tt + 2 \<and> length late = length tt + 2 \<and>
             length margins = length tt + 2) \<or>
          calculer_calendriers s = Some (Inl OverflowError))"
proof -
  from lire_construit [OF assms] obtain m where m: "matrix s = Some m"
    and len: "length m = length tt + 2" and om: "omega s = length tt + 1"
    by blast
  from len have ne: "m \<noteq> []" by auto
  from om len have lt: "omega s < length m" by simp
  have 1: "\<exists>ranks. calculer_rangs s = Some (Some ranks) \<and> length ranks = length tt + 2"
    using calculer_rangs_eq [OF m ne] len by simp
  from calculer_calendriers_eq [OF m ne lt]
  have 2: "(\<exists>early late margins.
             calculer_calendriers s = Some (Inr (Some (early, late, margins))) \<and>
             length early = length tt + 2 \<and> length late = length tt + 2 \<and>
             length margins = length tt + 2) \<or>
          calculer_calendriers s = Some (Inl OverflowError)"
  proof
    assume "calculer_calendriers s =
      Some (Inr (Some (tot_de m, tard_de m (omega s),
                       map (\<lambda>i. moins_pur (tard_de m (omega s) ! i) (tot_de m ! i))
                         [0..<length m])))"
    moreover have "length (tot_de m) = length tt + 2" "length (tard_de m (omega s)) = length tt + 2"
      "length (map (\<lambda>i. moins_pur (tard_de m (omega s) ! i) (tot_de m ! i)) [0..<length m])
         = length tt + 2"
      using len by simp_all
    ultimately show ?thesis by blast
  next
    assume "calculer_calendriers s = Some (Inl OverflowError)"
    then show ?thesis by (rule disjI2)
  qed
  from 1 2 show ?thesis by (rule conjI)
qed

theorem C8_sans_garde_witness:
  "construire_graphe (lire_fichier exemple_circuit init) = Inr graphe_circuit \<and>
   (\<exists>ranks. calculer_rangs graphe_circuit = Some (Some ranks) \<and>
            length ranks = length exemple_circuit + 2) \<and>
   ((\<exists>early late margins.
       calculer_calendriers graphe_circuit = Some (Inr (Some (early, late, margins))) \<and>
       length early = length exemple_circuit + 2 \<and> length late = length exemple_circuit + 2 \<and>
       length margins = length exemple_circuit + 2) \<or>
    calculer_calendriers graphe_circuit = Some (Inl OverflowError))"
  using C8_sans_garde [OF circuit_construit] circuit_construit by simp

section \<open>The cells of a built matrix\<close>

definition ids_ok :: "task_table \<Rightarrow> bool" where
  "ids_ok tt \<longleftrightarrow> (\<forall>k\<in>fst ` set tt. 1 \<le> k)"

lemma set_cell_nat:
  assumes "set_cell m i j v = Inr m'" "0 \<le> i" "0 \<le> j"
  shows "nat i < length m \<and> nat j < length (m ! nat i) \<and>
         m' = m[nat i := (m ! nat i)[nat j := Some v]]"
  using assms
  by (auto simp: set_cell_def py_index_def split: option.splits if_splits)

lemma set_cell_cell:
  assumes "set_cell m i j v = Inr m'" "0 \<le> i" "0 \<le> j" "i' < length m" "j' < length (m ! i')"
  shows "m' ! i' ! j' = (if i' = nat i \<and> j' = nat j then Some v else m ! i' ! j')"
proof -
  from set_cell_nat [OF assms(1-3)] have a: "nat i < length m" "nat j < length (m ! nat i)"
    and m': "m' = m[nat i := (m ! nat i)[nat j := Some v]]" by auto
  show ?thesis
  proof (cases "i' = nat i")
    case True
    with a m' assms(5) show ?thesis by (simp add: nth_list_update)
  next
    case False
    with m' assms(4) show ?thesis by simp
  qed
qed

lemma map_of_key: "map_of tt k = Some v \<Longrightarrow> k \<in> fst ` set tt"
  by (metis map_of_eq_None_iff option.distinct(1))

lemma arcs_alpha_cells:
  assumes "arcs_alpha a ts m = Inr m'" "\<forall>k\<in>fst ` set ts. 0 \<le> k"
    "i < length m" "j < length (m ! i)"
  shows "m' ! i ! j \<noteq> None \<longleftrightarrow> m ! i ! j \<noteq> None \<or> (i = a \<and> (\<exists>d. (int j, d, []) \<in> set ts))"
  using assms
proof (induction a ts m rule: arcs_alpha.induct)
  case (1 a m)
  then show ?case by simp
next
  case (2 a task duration predecessors rest m)
  from 2(4) have t0: "0 \<le> task" and r0: "\<forall>k\<in>fst ` set rest. 0 \<le> k" by auto
  show ?case
  proof (cases "predecessors = []")
    case True
    with 2(3) obtain m1 where s: "set_cell m (int a) task 0 = Inr m1"
      and r: "arcs_alpha a rest m1 = Inr m'"
      by (auto split: sum.splits)
    from set_cell_shape [OF s] 2(5,6) have l: "i < length m1" "j < length (m1 ! i)" by auto
    from set_cell_cell [OF s _ t0 2(5,6)]
    have c: "m1 ! i ! j = (if i = a \<and> j = nat task then Some 0 else m ! i ! j)" by simp
    from 2(1) [OF True s r r0 l] c t0 True show ?thesis by auto
  next
    case False
    with 2(2) [OF False _ r0 2(5,6)] 2(3) show ?thesis by auto
  qed
qed

lemma arcs_pred_cells:
  assumes "arcs_pred tt task ps m = Inr m'" "0 \<le> task" "\<forall>k\<in>fst ` set tt. 0 \<le> k"
    "i < length m" "j < length (m ! i)"
  shows "m' ! i ! j \<noteq> None \<longleftrightarrow> m ! i ! j \<noteq> None \<or> (j = nat task \<and> int i \<in> set ps)"
  using assms
proof (induction tt task ps m rule: arcs_pred.induct)
  case (1 tt task m)
  then show ?case by simp
next
  case (2 tt task pred preds m)
  from 2(2) obtain d ps' m1 where l: "map_of tt pred = Some (d, ps')"
    and s: "set_cell m pred task d = Inr m1"
    and r: "arcs_pred tt task preds m1 = Inr m'"
    by (auto split: option.splits sum.splits)
  from map_of_key [OF l] 2(4) have p0: "0 \<le> pred" by auto
  from set_cell_shape [OF s] 2(5,6) have l1: "i < length m1" "j < length (m1 ! i)" by auto
  from set_cell_cell [OF s p0 2(3) 2(5,6)]
  have c: "m1 ! i ! j = (if i = nat pred \<and> j = nat task then Some d else m ! i ! j)" by simp
  from 2(1) [OF l refl s r 2(3,4) l1] c p0 show ?case by auto
qed

lemma arcs_taches_cells:
  assumes "arcs_taches tt ts m = Inr m'" "\<forall>k\<in>fst ` set ts. 0 \<le> k" "\<forall>k\<in>fst ` set tt. 0 \<le> k"
    "i < length m" "j < length (m ! i)"
  shows "m' ! i ! j \<noteq> None \<longleftrightarrow>
         m ! i ! j \<noteq> None \<or> (\<exists>d ps. (int j, d, ps) \<in> set ts \<and> int i \<in> set ps)"
  using assms
proof (induction tt ts m rule: arcs_taches.induct)
  case (1 tt m)
  then show ?case by simp
next
  case (2 tt task duration predecessors rest m)
  from 2(2) obtain m1 where s: "arcs_pred tt task predecessors m = Inr m1"
    and r: "arcs_taches tt rest m1 = Inr m'"
    by (auto split: sum.splits)
  from 2(3) have t0: "0 \<le> task" and r0: "\<forall>k\<in>fst ` set rest. 0 \<le> k" by auto
  from arcs_pred_shape [OF s] 2(5,6) have l1: "i < length m1" "j < length (m1 ! i)" by auto
  from arcs_pred_cells [OF s t0 2(4) 2(5,6)]
  have c: "m1 ! i ! j \<noteq> None \<longleftrightarrow> m ! i ! j \<noteq> None \<or> (j = nat task \<and> int i \<in> set predecessors)" .
  have jt: "j = nat task \<longleftrightarrow> int j = task" using t0 by auto
  have e: "(\<exists>d ps. (int j, d, ps) \<in> set ((task, duration, predecessors) # rest) \<and> int i \<in> set ps)
      \<longleftrightarrow> (int j = task \<and> int i \<in> set predecessors) \<or>
          (\<exists>d ps. (int j, d, ps) \<in> set rest \<and> int i \<in> set ps)"
    by (simp only: set_simps insert_iff prod.inject) blast
  from 2(1) [OF s r r0 2(4) l1] c show ?case unfolding jt e by blast
qed

lemma arcs_omega_rows:
  assumes "arcs_omega tt om sz is m = Inr m'" "distinct is" "i < length m"
  shows "m' ! i =
     (if i \<in> set is then
        (case map_of tt (int i) of
           Some (d, ps) \<Rightarrow>
             if i \<noteq> om \<and> \<not> list_ex (\<lambda>j. m ! i ! j \<noteq> None) [0..<sz]
             then (m ! i)[om := Some d] else m ! i
         | None \<Rightarrow> m ! i)
      else m ! i)"
  using assms
proof (induction tt om sz "is" m rule: arcs_omega.induct)
  case (1 tt om sz m)
  then show ?case by simp
next
  case (2 tt om sz i0 rest m)
  from 2(5) have d: "distinct rest" and ni: "i0 \<notin> set rest" by auto
  show ?case
  proof (cases "map_of tt (int i0)")
    case None
    from 2(4) None have r: "arcs_omega tt om sz rest m = Inr m'" by (simp add: Let_def)
    from 2(1) [OF refl None r d 2(6)] None ni show ?thesis by auto
  next
    case (Some a)
    obtain dd ps where a: "a = (dd, ps)" by (cases a) auto
    note S = Some [unfolded a]
    show ?thesis
    proof (cases "i0 \<noteq> om \<and> \<not> list_ex (\<lambda>j. m ! i0 ! j \<noteq> None) [0..<sz]")
      case True
      with 2(4) S obtain m1 where s: "set_cell m (int i0) (int om) dd = Inr m1"
        and r: "arcs_omega tt om sz rest m1 = Inr m'"
        by (auto simp: Let_def split: sum.splits)
      from set_cell_nat [OF s] have i0: "i0 < length m"
        and m1: "m1 = m[i0 := (m ! i0)[om := Some dd]]" by auto
      from m1 2(6) have l: "i < length m1" by simp
      from 2(2) [OF refl S refl True s r d l]
      have IH: "m' ! i = (if i \<in> set rest then
          (case map_of tt (int i) of
             Some (d, ps) \<Rightarrow>
               if i \<noteq> om \<and> \<not> list_ex (\<lambda>j. m1 ! i ! j \<noteq> None) [0..<sz]
               then (m1 ! i)[om := Some d] else m1 ! i
           | None \<Rightarrow> m1 ! i)
        else m1 ! i)" .
      show ?thesis
      proof (cases "i = i0")
        case True
        with IH ni m1 i0 S \<open>i0 \<noteq> om \<and> \<not> list_ex (\<lambda>j. m ! i0 ! j \<noteq> None) [0..<sz]\<close>
        show ?thesis by simp
      next
        case False
        with m1 have e: "m1 ! i = m ! i" by simp
        from IH [unfolded e] False show ?thesis by simp
      qed
    next
      case False
      with 2(4) S have r: "arcs_omega tt om sz rest m = Inr m'" by (auto simp: Let_def)
      from 2(3) [OF refl S refl False r d 2(6)] False S ni show ?thesis by auto
    qed
  qed
qed

lemma arcs_alpha_range:
  assumes "arcs_alpha a ts m = Inr m'" "\<forall>k\<in>fst ` set ts. 0 \<le> k"
    "\<forall>r<length m. length (m ! r) = length m" "(k, d, []) \<in> set ts"
  shows "nat k < length m"
  using assms
proof (induction a ts m rule: arcs_alpha.induct)
  case (1 a m)
  then show ?case by simp
next
  case (2 a task duration predecessors rest m)
  from 2(4) have t0: "0 \<le> task" and r0: "\<forall>k\<in>fst ` set rest. 0 \<le> k" by auto
  show ?case
  proof (cases "predecessors = []")
    case True
    with 2(3) obtain m1 where s: "set_cell m (int a) task 0 = Inr m1"
      and r: "arcs_alpha a rest m1 = Inr m'"
      by (auto split: sum.splits)
    from set_cell_nat [OF s _ t0] 2(5) have t: "nat task < length m" by auto
    from set_cell_shape [OF s] 2(5) have sq: "\<forall>r<length m1. length (m1 ! r) = length m1"
      and l: "length m1 = length m" by auto
    show ?thesis
    proof (cases "(k, d, []) \<in> set rest")
      case True
      from 2(1) [OF \<open>predecessors = []\<close> s r r0 sq True] l show ?thesis by simp
    next
      case False
      with 2(6) have "k = task" by auto
      with t show ?thesis by simp
    qed
  next
    case False
    with 2(6) have "(k, d, []) \<in> set rest" by auto
    from 2(2) [OF False _ r0 2(5) this] False 2(3) show ?thesis by simp
  qed
qed

lemma arcs_pred_range:
  assumes "arcs_pred tt task ps m = Inr m'" "0 \<le> task" "\<forall>k\<in>fst ` set tt. 0 \<le> k"
    "\<forall>r<length m. length (m ! r) = length m" "p \<in> set ps"
  shows "p \<in> fst ` set tt \<and> nat p < length m \<and> nat task < length m"
  using assms
proof (induction tt task ps m rule: arcs_pred.induct)
  case (1 tt task m)
  then show ?case by simp
next
  case (2 tt task pred preds m)
  from 2(2) obtain d ps' m1 where l: "map_of tt pred = Some (d, ps')"
    and s: "set_cell m pred task d = Inr m1"
    and r: "arcs_pred tt task preds m1 = Inr m'"
    by (auto split: option.splits sum.splits)
  from map_of_key [OF l] 2(4) have pk: "pred \<in> fst ` set tt" and p0: "0 \<le> pred" by auto
  from set_cell_nat [OF s p0 2(3)] 2(5) have rg: "nat pred < length m" "nat task < length m"
    by auto
  from set_cell_shape [OF s] 2(5) have sq: "\<forall>r<length m1. length (m1 ! r) = length m1"
    and len: "length m1 = length m" by auto
  show ?case
  proof (cases "p = pred")
    case True
    with pk rg show ?thesis by simp
  next
    case False
    with 2(6) have "p \<in> set preds" by simp
    from 2(1) [OF l refl s r 2(3,4) sq this] len show ?thesis by simp
  qed
qed

lemma arcs_taches_range:
  assumes "arcs_taches tt ts m = Inr m'" "\<forall>k\<in>fst ` set ts. 0 \<le> k" "\<forall>k\<in>fst ` set tt. 0 \<le> k"
    "\<forall>r<length m. length (m ! r) = length m" "(k, d, ps) \<in> set ts" "p \<in> set ps"
  shows "p \<in> fst ` set tt \<and> nat p < length m \<and> nat k < length m"
  using assms
proof (induction tt ts m rule: arcs_taches.induct)
  case (1 tt m)
  then show ?case by simp
next
  case (2 tt task duration predecessors rest m)
  from 2(2) obtain m1 where s: "arcs_pred tt task predecessors m = Inr m1"
    and r: "arcs_taches tt rest m1 = Inr m'"
    by (auto split: sum.splits)
  from 2(3) have t0: "0 \<le> task" and r0: "\<forall>k\<in>fst ` set rest. 0 \<le> k" by auto
  from arcs_pred_shape [OF s] 2(5) have sq: "\<forall>r<length m1. length (m1 ! r) = length m1"
    and len: "length m1 = length m" by auto
  show ?case
  proof (cases "(k, d, ps) \<in> set rest")
    case True
    from 2(1) [OF s r r0 2(4) sq True 2(7)] len show ?thesis by simp
  next
    case False
    with 2(6) have "k = task" "ps = predecessors" by auto
    with arcs_pred_range [OF s t0 2(4,5)] 2(7) show ?thesis by simp
  qed
qed

definition arc_tache :: "task_table \<Rightarrow> nat \<Rightarrow> nat \<Rightarrow> bool" where
  "arc_tache tt i j \<longleftrightarrow>
     (i = 0 \<and> (\<exists>d. (int j, d, []) \<in> set tt)) \<or>
     (\<exists>d ps. (int j, d, ps) \<in> set tt \<and> int i \<in> set ps)"

lemma construit_cells:
  assumes build: "construire_graphe (lire_fichier tt s0) = Inr s" and a0: "alpha s0 = 0"
    and ids: "ids_ok tt" and m: "matrix s = Some m"
  shows "length m = length tt + 2"
    and "\<And>i j. i < length m \<Longrightarrow> j < length m \<Longrightarrow>
           m ! i ! j \<noteq> None \<longleftrightarrow>
             arc_tache tt i j \<or>
             (j = length tt + 1 \<and> i \<noteq> length tt + 1 \<and> int i \<in> fst ` set tt \<and>
              \<not> (\<exists>j'<length m. arc_tache tt i j'))"
    and "\<And>i d ps. i < length m \<Longrightarrow> map_of tt (int i) = Some (d, ps) \<Longrightarrow> i \<noteq> length tt + 1 \<Longrightarrow>
           \<not> (\<exists>j'<length m. arc_tache tt i j') \<Longrightarrow> m ! i ! (length tt + 1) = Some d"
    and "\<And>k d ps. (k, d, ps) \<in> set tt \<Longrightarrow>
           1 \<le> k \<and> nat k < length m \<and> (\<forall>p\<in>set ps. p \<in> fst ` set tt)"
proof -
  define sz where "sz = length tt + 2"
  define om where "om = length tt + 1"
  define m0 where "m0 = replicate sz (replicate sz (None :: int option))"
  from build a0 m obtain m1 m2 where
    a: "arcs_alpha 0 tt m0 = Inr m1"
    and b: "arcs_taches tt tt m1 = Inr m2"
    and c: "arcs_omega tt om sz [0..<sz] m2 = Inr m"
    unfolding construire_graphe_def Let_def lire_fichier_def
    by (auto simp: sz_def om_def m0_def split: sum.splits)
  from ids have k0: "\<forall>k\<in>fst ` set tt. 0 \<le> k" by (auto simp: ids_ok_def)
  have 0: "length m0 = sz" "\<forall>r<length m0. length (m0 ! r) = length m0" by (simp_all add: m0_def)
  with arcs_alpha_shape [OF a]
  have 1: "length m1 = sz" "\<forall>r<length m1. length (m1 ! r) = length m1" by auto
  with arcs_taches_shape [OF b]
  have 2: "length m2 = sz" "\<forall>r<length m2. length (m2 ! r) = length m2" by auto
  with arcs_omega_shape [OF c]
  have 3: "length m = sz" "\<forall>r<length m. length (m ! r) = length m" by auto
  from 3 show len: "length m = length tt + 2" by (simp add: sz_def)
  have c1: "m1 ! i ! j \<noteq> None \<longleftrightarrow> (i = 0 \<and> (\<exists>d. (int j, d, []) \<in> set tt))"
    if "i < sz" "j < sz" for i j
    using arcs_alpha_cells [OF a k0, of i j] that 0 by (simp add: m0_def)
  have c2: "m2 ! i ! j \<noteq> None \<longleftrightarrow> arc_tache tt i j" if "i < sz" "j < sz" for i j
    using arcs_taches_cells [OF b k0 k0, of i j] that 1 c1 [OF that]
    by (simp add: arc_tache_def)
  have ex: "list_ex (\<lambda>j. m2 ! i ! j \<noteq> None) [0..<sz] \<longleftrightarrow> (\<exists>j'<sz. arc_tache tt i j')"
    if "i < sz" for i
    using c2 [OF that] by (auto simp: list_ex_iff)
  have rows: "m ! i =
     (case map_of tt (int i) of
        Some (d, ps) \<Rightarrow>
          if i \<noteq> om \<and> \<not> (\<exists>j'<sz. arc_tache tt i j') then (m2 ! i)[om := Some d] else m2 ! i
      | None \<Rightarrow> m2 ! i)" if "i < sz" for i
    using arcs_omega_rows [OF c, of i] that 2 ex [OF that]
    by (cases "map_of tt (int i)") (auto simp del: not_None_eq)
  have key: "int i \<in> fst ` set tt \<longleftrightarrow> (\<exists>d ps. map_of tt (int i) = Some (d, ps))" for i
    by (metis map_of_eq_None_iff not_Some_eq prod.collapse map_of_key)
  have omsz: "om < sz" by (simp add: om_def sz_def)
  show "m ! i ! j \<noteq> None \<longleftrightarrow>
             arc_tache tt i j \<or>
             (j = length tt + 1 \<and> i \<noteq> length tt + 1 \<and> int i \<in> fst ` set tt \<and>
              \<not> (\<exists>j'<length m. arc_tache tt i j'))"
    if ij: "i < length m" "j < length m" for i j
  proof -
    from ij 3 have i: "i < sz" and j: "j < sz" by auto
    from 2 i j have jl: "j < length (m2 ! i)" "om < length (m2 ! i)" using omsz by auto
    show ?thesis
    proof (cases "map_of tt (int i)")
      case None
      with rows [OF i] c2 [OF i j] key [of i] show ?thesis by auto
    next
      case (Some a)
      obtain d ps where "a = (d, ps)" by (cases a) auto
      with Some have S: "map_of tt (int i) = Some (d, ps)" by simp
      show ?thesis
      proof (cases "i \<noteq> om \<and> \<not> (\<exists>j'<sz. arc_tache tt i j')")
        case True
        with rows [OF i] S have "m ! i = (m2 ! i)[om := Some d]" by simp
        then have "m ! i ! j = (if j = om then Some d else m2 ! i ! j)"
          using jl by (simp add: nth_list_update)
        with c2 [OF i j] True key [of i] S 3 show ?thesis by (auto simp: om_def)
      next
        case False
        with rows [OF i] S have "m ! i = m2 ! i" by auto
        with c2 [OF i j] False 3 show ?thesis by (auto simp: om_def)
      qed
    qed
  qed
  show "m ! i ! (length tt + 1) = Some d"
    if "i < length m" "map_of tt (int i) = Some (d, ps)" "i \<noteq> length tt + 1"
      "\<not> (\<exists>j'<length m. arc_tache tt i j')" for i d ps
  proof -
    from that 3 have i: "i < sz" by auto
    from 2 i omsz have jl: "om < length (m2 ! i)" by auto
    from rows [OF i] that 3 have "m ! i = (m2 ! i)[om := Some d]" by (simp add: om_def)
    with jl show ?thesis by (simp add: om_def)
  qed
  show "1 \<le> k \<and> nat k < length m \<and> (\<forall>p\<in>set ps. p \<in> fst ` set tt)"
    if kt: "(k, d, ps) \<in> set tt" for k d ps
  proof -
    from kt ids have k1: "1 \<le> k" by (force simp: ids_ok_def)
    have "nat k < sz"
    proof (cases ps)
      case Nil
      with arcs_alpha_range [OF a k0 0(2), of k d] kt 0 show ?thesis by simp
    next
      case (Cons p ps')
      then have "p \<in> set ps" by simp
      from arcs_taches_range [OF b k0 k0 1(2) kt this] 1 show ?thesis by simp
    qed
    moreover have "p \<in> fst ` set tt" if "p \<in> set ps" for p
      using arcs_taches_range [OF b k0 k0 1(2) kt that] by simp
    ultimately show ?thesis using k1 3 by simp
  qed
qed

section \<open>Arcs leaving the task vertices (C10)\<close>

lemma arc_tache_ligne0:
  assumes "arc_tache tt 0 j" "ids_ok tt"
    "\<forall>k d ps. (k, d, ps) \<in> set tt \<longrightarrow> (\<forall>p\<in>set ps. p \<in> fst ` set tt)"
  shows "\<exists>d. (int j, d, []) \<in> set tt"
proof (rule ccontr)
  assume "\<not> ?thesis"
  with assms(1) obtain d ps where "(int j, d, ps) \<in> set tt" "0 \<in> set ps"
    by (auto simp: arc_tache_def)
  with assms(3) have "0 \<in> fst ` set tt" by blast
  with assms(2) show False by (auto simp: ids_ok_def)
qed

lemma boucle_construit:
  "construire_graphe (lire_fichier exemple_boucle init) = Inr graphe_boucle"
  by code_simp

lemma boucle_arcs: "map_option arcs (matrix graphe_boucle) = Some [(1, 1, 5)]"
  by code_simp

text \<open>
  C10, as the specification states it: a task with no outgoing arc to another task
  receives an arc to \<open>omega\<close>. In the table \<open>exemple_boucle\<close> the only task is its own
  predecessor: the built graph has the arc 1\<rightarrow>1 and no other. Task 1 has no arc to another
  task, and it has no arc to \<open>omega\<close> either: the test \<^verbatim>\<open>has_successors\<close> counts the loop.
\<close>

theorem C10_counterexample:
  "construire_graphe (lire_fichier exemple_boucle init) = Inr graphe_boucle \<and>
   map_option arcs (matrix graphe_boucle) = Some [(1, 1, 5)] \<and>
   map_option (\<lambda>m. m ! 1 ! omega graphe_boucle) (matrix graphe_boucle) = Some None"
  by (simp add: boucle_construit boucle_arcs) (simp add: graphe_boucle_def matrice_boucle_def)

text \<open>
  C10, amended: after \<open>construire_graphe\<close> (task numbers at least 1, as the data model has
  them), every task vertex in \<open>1..n\<close> has an outgoing arc; a task that is a predecessor of
  no task, itself included, has the arc to \<open>omega\<close>, weighted by its own duration; and
  when every task has a predecessor, no arc leaves \<open>alpha\<close>, so that \<open>omega\<close> cannot be
  reached from \<open>alpha\<close>.
\<close>

theorem C10_arcs_sortants:
  assumes build: "construire_graphe (lire_fichier tt s0) = Inr s" and a0: "alpha s0 = 0"
    and ids: "ids_ok tt" and m: "matrix s = Some m"
  shows "(\<forall>i. 1 \<le> i \<and> i \<le> n s \<and> int i \<in> fst ` set tt \<longrightarrow> (\<exists>j<length m. m ! i ! j \<noteq> None)) \<and>
         (\<forall>i d ps. i \<le> n s \<and> map_of tt (int i) = Some (d, ps) \<and>
                   (\<forall>(t, d', ps')\<in>set tt. int i \<notin> set ps') \<longrightarrow> m ! i ! omega s = Some d) \<and>
         ((\<forall>(t, d, ps)\<in>set tt. ps \<noteq> []) \<longrightarrow>
            (\<forall>j<length m. m ! alpha s ! j = None) \<and> (alpha s, omega s) \<notin> (aretes m)\<^sup>+)"
proof -
  note C = construit_cells [OF build a0 ids m]
  from lire_construit [OF build] a0 have f: "n s = length tt" "alpha s = 0"
    "omega s = length tt + 1" by auto
  from C(4) have preds: "\<forall>k d ps. (k, d, ps) \<in> set tt \<longrightarrow> (\<forall>p\<in>set ps. p \<in> fst ` set tt)"
    by blast
  have om: "length tt + 1 < length m" using C(1) by simp
  have 1: "\<exists>j<length m. m ! i ! j \<noteq> None" if "1 \<le> i" "i \<le> n s" "int i \<in> fst ` set tt" for i
  proof -
    from that f C(1) have i: "i < length m" "i \<noteq> length tt + 1" by auto
    show ?thesis
    proof (cases "\<exists>j'<length m. arc_tache tt i j'")
      case True
      then obtain j where j: "j < length m" "arc_tache tt i j" by blast
      from C(2) [OF i(1) j(1)] j(2) have "m ! i ! j \<noteq> None" by simp
      with j(1) show ?thesis by (intro exI conjI)
    next
      case False
      from C(2) [OF i(1) om] False i(2) that(3)
      have "m ! i ! (length tt + 1) \<noteq> None" by simp
      with om show ?thesis by (intro exI conjI)
    qed
  qed
  have 2: "m ! i ! omega s = Some d"
    if "i \<le> n s" "map_of tt (int i) = Some (d, ps)" "\<forall>(t, d', ps')\<in>set tt. int i \<notin> set ps'"
    for i d ps
  proof -
    from that f C(1) have i: "i < length m" "i \<noteq> length tt + 1" by auto
    from map_of_key [OF that(2)] ids have "i \<noteq> 0" by (auto simp: ids_ok_def)
    have "\<not> arc_tache tt i j'" for j'
    proof
      assume "arc_tache tt i j'"
      with \<open>i \<noteq> 0\<close> obtain d' ps' where e: "(int j', d', ps') \<in> set tt" "int i \<in> set ps'"
        unfolding arc_tache_def by blast
      from bspec [OF that(3) e(1)] e(2) show False by simp
    qed
    then have "\<not> (\<exists>j'<length m. arc_tache tt i j')" by simp
    from C(3) [OF i(1) that(2) i(2) this] f show ?thesis by simp
  qed
  have 3: "(\<forall>j<length m. m ! alpha s ! j = None) \<and> (alpha s, omega s) \<notin> (aretes m)\<^sup>+"
    if all: "\<forall>(t, d, ps)\<in>set tt. ps \<noteq> []"
  proof -
    have no: "\<not> arc_tache tt 0 j" for j
    proof
      assume "arc_tache tt 0 j"
      from arc_tache_ligne0 [OF this ids preds] obtain d where "(int j, d, []) \<in> set tt"
        by blast
      from bspec [OF all this] show False by simp
    qed
    have z: "0 < length m" using C(1) by simp
    from ids have k0: "int 0 \<notin> fst ` set tt" by (auto simp: ids_ok_def)
    have row: "\<forall>j<length m. m ! 0 ! j = None"
    proof (intro allI impI)
      fix j assume j: "j < length m"
      from C(2) [OF z j] no [of j] k0 show "m ! 0 ! j = None" by simp
    qed
    have "(0, omega s) \<notin> (aretes m)\<^sup>+"
    proof
      assume "(0, omega s) \<in> (aretes m)\<^sup>+"
      then obtain z where "(0, z) \<in> aretes m" by (auto dest: tranclD)
      with row show False by (auto simp: aretes_def)
    qed
    with row f show ?thesis by simp
  qed
  show ?thesis
  proof (intro conjI allI impI)
    fix i assume "1 \<le> i \<and> i \<le> n s \<and> int i \<in> fst ` set tt"
    then show "\<exists>j<length m. m ! i ! j \<noteq> None" using 1 by simp
  next
    fix i d ps
    assume "i \<le> n s \<and> map_of tt (int i) = Some (d, ps) \<and>
            (\<forall>(t, d', ps')\<in>set tt. int i \<notin> set ps')"
    then show "m ! i ! omega s = Some d" using 2 [of i d ps] by simp
  next
    fix j assume "\<forall>(t, d, ps)\<in>set tt. ps \<noteq> []" "j < length m"
    then show "m ! alpha s ! j = None" using 3 by simp
  next
    assume "\<forall>(t, d, ps)\<in>set tt. ps \<noteq> []"
    then show "(alpha s, omega s) \<notin> (aretes m)\<^sup>+" using 3 by simp
  qed
qed

theorem C10_arcs_sortants_witness:
  "construire_graphe (lire_fichier exemple init) = Inr graphe_exemple \<and> alpha init = 0 \<and>
   ids_ok exemple \<and> matrix graphe_exemple = Some matrice_exemple \<and>
   (\<exists>j<length matrice_exemple. matrice_exemple ! 3 ! j \<noteq> None) \<and>
   matrice_exemple ! 4 ! omega graphe_exemple = Some 1 \<and>
   construire_graphe (lire_fichier exemple_circuit init) = Inr graphe_circuit \<and>
   ids_ok exemple_circuit \<and> matrix graphe_circuit = Some matrice_circuit \<and>
   matrice_circuit ! alpha graphe_circuit ! 2 = None \<and>
   (alpha graphe_circuit, omega graphe_circuit) \<notin> (aretes matrice_circuit)\<^sup>+"
proof -
  have a0: "alpha init = 0" by (simp add: init_def)
  have i1: "ids_ok exemple" by (simp add: ids_ok_def exemple_def)
  have i2: "ids_ok exemple_circuit" by (simp add: ids_ok_def exemple_circuit_def)
  have m1: "matrix graphe_exemple = Some matrice_exemple" by (simp add: graphe_exemple_def)
  have m2: "matrix graphe_circuit = Some matrice_circuit" by (simp add: graphe_circuit_def)
  note A = C10_arcs_sortants [OF exemple_construit a0 i1 m1]
  note B = C10_arcs_sortants [OF circuit_construit a0 i2 m2]
  from A have A1: "\<exists>j<length matrice_exemple. matrice_exemple ! 3 ! j \<noteq> None"
    by (simp add: graphe_exemple_def exemple_def)
  from A have "4 \<le> n graphe_exemple \<and> map_of exemple (int 4) = Some (1, [3]) \<and>
      (\<forall>(t, d', ps')\<in>set exemple. int 4 \<notin> set ps') \<longrightarrow>
      matrice_exemple ! 4 ! omega graphe_exemple = Some 1"
    by blast
  then have A2: "matrice_exemple ! 4 ! omega graphe_exemple = Some 1"
    by (simp add: graphe_exemple_def exemple_def)
  from B have B3: "(\<forall>j<length matrice_circuit. matrice_circuit ! alpha graphe_circuit ! j = None) \<and>
      (alpha graphe_circuit, omega graphe_circuit) \<notin> (aretes matrice_circuit)\<^sup>+"
    by (simp add: exemple_circuit_def)
  from B3 have B4: "matrice_circuit ! alpha graphe_circuit ! 2 = None"
    by (simp add: matrice_circuit_def)
  from exemple_construit circuit_construit a0 i1 i2 m1 m2 A1 A2 B3 B4 show ?thesis by simp
qed

section \<open>A predecessor that is not a task (C4)\<close>

lemma arcs_pred_keys:
  "arcs_pred tt task ps m = Inr m' \<Longrightarrow> p \<in> set ps \<Longrightarrow> map_of tt p \<noteq> None"
proof (induction tt task ps m rule: arcs_pred.induct)
  case (1 tt task m)
  then show ?case by simp
next
  case (2 tt task pred preds m)
  from 2(2) obtain d ps' m1 where l: "map_of tt pred = Some (d, ps')"
    and s: "set_cell m pred task d = Inr m1"
    and r: "arcs_pred tt task preds m1 = Inr m'"
    by (auto split: option.splits sum.splits)
  show ?case
  proof (cases "p = pred")
    case True
    with l show ?thesis by simp
  next
    case False
    with 2(3) have "p \<in> set preds" by simp
    from 2(1) [OF l refl s r this] show ?thesis .
  qed
qed

lemma arcs_taches_keys:
  "arcs_taches tt ts m = Inr m' \<Longrightarrow> (k, d, ps) \<in> set ts \<Longrightarrow> p \<in> set ps
     \<Longrightarrow> map_of tt p \<noteq> None"
proof (induction tt ts m rule: arcs_taches.induct)
  case (1 tt m)
  then show ?case by simp
next
  case (2 tt task duration predecessors rest m)
  from 2(2) obtain m1 where s: "arcs_pred tt task predecessors m = Inr m1"
    and r: "arcs_taches tt rest m1 = Inr m'"
    by (auto split: sum.splits)
  show ?case
  proof (cases "(k, d, ps) \<in> set rest")
    case True
    from 2(1) [OF s r True 2(4)] show ?thesis .
  next
    case False
    with 2(3) have "ps = predecessors" by auto
    with arcs_pred_keys [OF s] 2(4) show ?thesis by simp
  qed
qed

lemma set_cell_ok:
  assumes "0 \<le> i" "nat i < length m" "0 \<le> j" "nat j < length (m ! nat i)"
  shows "\<exists>m'. set_cell m i j v = Inr m'"
  using assms by (auto simp: set_cell_def py_index_def)

lemma arcs_alpha_ok:
  assumes "\<forall>k\<in>fst ` set ts. 0 \<le> k \<and> nat k < length m" "a < length m"
    "\<forall>r<length m. length (m ! r) = length m"
  shows "\<exists>m'. arcs_alpha a ts m = Inr m'"
  using assms
proof (induction a ts m rule: arcs_alpha.induct)
  case (1 a m)
  then show ?case by simp
next
  case (2 a task duration predecessors rest m)
  from 2(3) have t: "0 \<le> task" "nat task < length m"
    and r: "\<forall>k\<in>fst ` set rest. 0 \<le> k \<and> nat k < length m" by auto
  show ?case
  proof (cases "predecessors = []")
    case True
    from set_cell_ok [of "int a" m task 0] t 2(4,5)
    obtain m1 where s: "set_cell m (int a) task 0 = Inr m1" by auto
    from set_cell_shape [OF s] 2(5) have sq: "\<forall>r<length m1. length (m1 ! r) = length m1"
      and l: "length m1 = length m" by auto
    from 2(1) [OF True s] r 2(4) sq l True s show ?thesis by simp
  next
    case False
    with 2(2) [OF False r 2(4,5)] show ?thesis by simp
  qed
qed

lemma arcs_pred_err:
  assumes "arcs_pred tt task ps m = Inl e" "0 \<le> task" "nat task < length m"
    "\<forall>k\<in>fst ` set tt. 0 \<le> k \<and> nat k < length m" "\<forall>r<length m. length (m ! r) = length m"
  shows "\<exists>q. e = KeyError q \<and> map_of tt q = None"
  using assms
proof (induction tt task ps m rule: arcs_pred.induct)
  case (1 tt task m)
  then show ?case by simp
next
  case (2 tt task pred preds m)
  show ?case
  proof (cases "map_of tt pred")
    case None
    with 2(2) show ?thesis by auto
  next
    case (Some a)
    obtain d ps' where a: "a = (d, ps')" by (cases a) auto
    note l = Some [unfolded a]
    from map_of_key [OF l] 2(5) have p: "0 \<le> pred" "nat pred < length m" by auto
    from set_cell_ok [of pred m task d] p 2(3,4,6)
    obtain m1 where s: "set_cell m pred task d = Inr m1" by auto
    from set_cell_shape [OF s] 2(6) have sq: "\<forall>r<length m1. length (m1 ! r) = length m1"
      and len: "length m1 = length m" by auto
    from 2(2) l s have r: "arcs_pred tt task preds m1 = Inl e" by simp
    from 2(1) [OF l refl s r 2(3)] 2(4,5) sq len show ?thesis by simp
  qed
qed

lemma arcs_taches_err:
  assumes "arcs_taches tt ts m = Inl e" "\<forall>k\<in>fst ` set ts. 0 \<le> k \<and> nat k < length m"
    "\<forall>k\<in>fst ` set tt. 0 \<le> k \<and> nat k < length m" "\<forall>r<length m. length (m ! r) = length m"
  shows "\<exists>q. e = KeyError q \<and> map_of tt q = None"
  using assms
proof (induction tt ts m rule: arcs_taches.induct)
  case (1 tt m)
  then show ?case by simp
next
  case (2 tt task duration predecessors rest m)
  from 2(3) have t: "0 \<le> task" "nat task < length m"
    and r0: "\<forall>k\<in>fst ` set rest. 0 \<le> k \<and> nat k < length m" by auto
  show ?case
  proof (cases "arcs_pred tt task predecessors m")
    case (Inl e')
    with 2(2) have "e' = e" by simp
    with arcs_pred_err [OF Inl t 2(4,5)] show ?thesis by simp
  next
    case (Inr m1)
    from arcs_pred_shape [OF Inr] 2(5) have sq: "\<forall>r<length m1. length (m1 ! r) = length m1"
      and len: "length m1 = length m" by auto
    from 2(2) Inr have r: "arcs_taches tt rest m1 = Inl e" by simp
    from 2(1) [OF Inr r] r0 2(4) sq len show ?thesis by simp
  qed
qed

text \<open>
  C4: when some task lists a predecessor that is no key of the table, graph construction
  does not return: it raises. With the task numbers of the data model (between 1 and \<open>n\<close>)
  what it raises is \<^verbatim>\<open>KeyError\<close> on a predecessor that is no key, from the lookup
  \<^verbatim>\<open>self.tasks[pred]\<close>; the reference is never dropped.
\<close>

theorem C4_predecesseur_absent:
  assumes "(t, d, ps) \<in> set tt" "p \<in> set ps" "p \<notin> fst ` set tt"
  shows "\<exists>e. construire_graphe (lire_fichier tt s0) = Inl e \<and>
             (alpha s0 = 0 \<and> (\<forall>k\<in>fst ` set tt. 1 \<le> k \<and> k \<le> int (length tt))
                \<longrightarrow> (\<exists>q. e = KeyError q \<and> q \<notin> fst ` set tt))"
proof -
  define sz where "sz = length tt + 2"
  define m0 where "m0 = replicate sz (replicate sz (None :: int option))"
  have f: "alpha (lire_fichier tt s0) = alpha s0" "tasks (lire_fichier tt s0) = tt"
    "n (lire_fichier tt s0) = length tt" "omega (lire_fichier tt s0) = length tt + 1"
    by (simp_all add: lire_fichier_def)
  have cg: "construire_graphe (lire_fichier tt s0) =
      (case arcs_alpha (alpha s0) tt m0 of
         Inl e \<Rightarrow> Inl e
       | Inr m1 \<Rightarrow>
           (case arcs_taches tt tt m1 of
              Inl e \<Rightarrow> Inl e
            | Inr m2 \<Rightarrow>
                (case arcs_omega tt (length tt + 1) sz [0..<sz] m2 of
                   Inl e \<Rightarrow> Inl e
                 | Inr m3 \<Rightarrow> Inr (lire_fichier tt s0\<lparr>matrix := Some m3\<rparr>))))"
    unfolding construire_graphe_def Let_def f sz_def m0_def by (rule refl)
  from assms(3) have none: "map_of tt p = None" by (simp add: map_of_eq_None_iff)
  have taches: "\<exists>e. arcs_taches tt tt m1 = Inl e" for m1
  proof (cases "arcs_taches tt tt m1")
    case (Inl e)
    then show ?thesis by blast
  next
    case (Inr m2)
    from arcs_taches_keys [OF Inr assms(1,2)] none show ?thesis by simp
  qed
  have 0: "length m0 = sz" "\<forall>r<length m0. length (m0 ! r) = length m0" by (simp_all add: m0_def)
  show ?thesis
  proof (cases "arcs_alpha (alpha s0) tt m0")
    case (Inl e)
    have nh: "\<not> (alpha s0 = 0 \<and> (\<forall>k\<in>fst ` set tt. 1 \<le> k \<and> k \<le> int (length tt)))"
    proof
      assume h: "alpha s0 = 0 \<and> (\<forall>k\<in>fst ` set tt. 1 \<le> k \<and> k \<le> int (length tt))"
      then have "\<forall>k\<in>fst ` set tt. 0 \<le> k \<and> nat k < length m0" using 0 by (auto simp: sz_def)
      from arcs_alpha_ok [OF this _ 0(2), of "alpha s0"] h 0 Inl show False by (simp add: sz_def)
    qed
    from Inl cg have "construire_graphe (lire_fichier tt s0) = Inl e" by simp
    with nh show ?thesis by blast
  next
    case (Inr m1)
    from taches [of m1] obtain e where e: "arcs_taches tt tt m1 = Inl e" by blast
    have "\<exists>q. e = KeyError q \<and> q \<notin> fst ` set tt"
      if h: "alpha s0 = 0 \<and> (\<forall>k\<in>fst ` set tt. 1 \<le> k \<and> k \<le> int (length tt))"
    proof -
      from arcs_alpha_shape [OF Inr] 0
      have 1: "length m1 = sz" "\<forall>r<length m1. length (m1 ! r) = length m1" by auto
      from h 1 have k: "\<forall>k\<in>fst ` set tt. 0 \<le> k \<and> nat k < length m1" by (auto simp: sz_def)
      from arcs_taches_err [OF e k k 1(2)] show ?thesis by (auto simp: map_of_eq_None_iff)
    qed
    moreover from Inr e cg have "construire_graphe (lire_fichier tt s0) = Inl e" by simp
    ultimately show ?thesis by blast
  qed
qed

definition table_absent :: task_table where
  "table_absent = [(1, 1, [9])]"

lemma table_absent_leve: "construire_graphe (lire_fichier table_absent init) = Inl (KeyError 9)"
  by code_simp

theorem C4_predecesseur_absent_witness:
  "(1, 1, [9]) \<in> set table_absent \<and> 9 \<in> set [9 :: int] \<and> 9 \<notin> fst ` set table_absent \<and>
   construire_graphe (lire_fichier table_absent init) = Inl (KeyError 9) \<and>
   alpha init = 0 \<and> 9 \<notin> fst ` set table_absent"
proof -
  have h: "(1, 1, [9]) \<in> set table_absent" "9 \<in> set [9 :: int]" "9 \<notin> fst ` set table_absent"
    by (simp_all add: table_absent_def)
  from C4_predecesseur_absent [OF h, of init] table_absent_leve h show ?thesis
    by (simp add: init_def)
qed

section \<open>The depth-first search finds a circuit whenever there is one\<close>

definition marquer :: "dfs_state \<Rightarrow> nat \<Rightarrow> dfs_state" where
  "marquer st node =
     st\<lparr>visited := (visited st)[node := True], on_stack := (on_stack st)[node := True],
        path := path st @ [node]\<rparr>"

definition liberer :: "dfs_state \<Rightarrow> nat \<Rightarrow> dfs_state" where
  "liberer st node = st\<lparr>on_stack := (on_stack st)[node := False], path := butlast (path st)\<rparr>"

definition noirs :: "dfs_state \<Rightarrow> nat set" where
  "noirs st = {v. v < length (visited st) \<and> visited st ! v \<and> \<not> on_stack st ! v}"

definition non_vus :: "dfs_state \<Rightarrow> nat set" where
  "non_vus st = {v. v < length (visited st) \<and> \<not> visited st ! v}"

definition dfs_inv :: "nat list list \<Rightarrow> dfs_state \<Rightarrow> bool" where
  "dfs_inv adj st \<longleftrightarrow>
     length (visited st) = length adj \<and> length (on_stack st) = length adj \<and>
     (\<forall>v<length adj. on_stack st ! v \<longrightarrow> visited st ! v) \<and>
     (\<forall>u\<in>noirs st. set (adj ! u) \<subseteq> noirs st) \<and>
     (\<forall>u\<in>noirs st. (u, u) \<notin> (rel_adj adj)\<^sup>+)"

lemma dfs_Suc: "dfs (Suc k) adj node st = dfs_for k adj node (adj ! node) (marquer st node)"
  by (simp add: marquer_def)

lemma dfs_for_Nil: "dfs_for k adj node [] st = Some (PyFalse, liberer st node)"
  by (simp add: liberer_def)

lemma finite_non_vus [simp]: "finite (non_vus st)"
  by (simp add: non_vus_def)

lemma noirs_marquer:
  assumes "node < length (visited st)" "length (on_stack st) = length (visited st)"
    "\<not> visited st ! node"
  shows "noirs (marquer st node) = noirs st"
  using assms by (auto simp: noirs_def marquer_def nth_list_update)

lemma non_vus_marquer:
  assumes "node < length (visited st)"
  shows "non_vus (marquer st node) = non_vus st - {node}"
  using assms by (auto simp: non_vus_def marquer_def nth_list_update)

lemma noirs_liberer:
  assumes "node < length (visited st)" "length (on_stack st) = length (visited st)"
    "visited st ! node"
  shows "noirs (liberer st node) = insert node (noirs st)"
  using assms by (auto simp: noirs_def liberer_def nth_list_update)

lemma non_vus_liberer: "non_vus (liberer st node) = non_vus st"
  by (simp add: non_vus_def liberer_def)

lemma ferme_rtrancl:
  assumes "(v, w) \<in> (rel_adj adj)\<^sup>*" "v \<in> B" "\<forall>u\<in>B. set (adj ! u) \<subseteq> B"
  shows "w \<in> B"
  using assms
proof (induction rule: rtrancl_induct)
  case base
  then show ?case by simp
next
  case (step y z)
  then have "y \<in> B" by simp
  moreover from step(2) have "z \<in> set (adj ! y)" by (simp add: rel_adj_def)
  ultimately show ?case using step(5) by blast
qed

lemma pas_de_circuit_par:
  assumes "\<forall>u\<in>B. set (adj ! u) \<subseteq> B" "set (adj ! node) \<subseteq> B" "node \<notin> B"
  shows "(node, node) \<notin> (rel_adj adj)\<^sup>+"
proof
  assume "(node, node) \<in> (rel_adj adj)\<^sup>+"
  then obtain z where z: "(node, z) \<in> rel_adj adj" "(z, node) \<in> (rel_adj adj)\<^sup>*"
    by (auto dest: tranclD)
  from z(1) assms(2) have "z \<in> B" by (auto simp: rel_adj_def)
  from ferme_rtrancl [OF z(2) this assms(1)] assms(3) show False by simp
qed

lemma dfs_inv_marquer:
  assumes "dfs_inv adj st" "node < length adj" "\<not> visited st ! node"
  shows "dfs_inv adj (marquer st node)"
proof -
  from assms(1) have l: "length (visited st) = length adj" "length (on_stack st) = length adj"
    by (auto simp: dfs_inv_def)
  from noirs_marquer [of node st] l assms(2,3) have n: "noirs (marquer st node) = noirs st"
    by simp
  have "\<forall>v<length adj. on_stack (marquer st node) ! v \<longrightarrow> visited (marquer st node) ! v"
    using assms(1,2) l by (auto simp: dfs_inv_def marquer_def nth_list_update)
  with assms(1) l n show ?thesis by (simp add: dfs_inv_def) (simp add: marquer_def)
qed

lemma dfs_inv_liberer:
  assumes "dfs_inv adj st" "node < length adj" "visited st ! node" "on_stack st ! node"
    "set (adj ! node) \<subseteq> noirs st"
  shows "dfs_inv adj (liberer st node)"
proof -
  from assms(1) have l: "length (visited st) = length adj" "length (on_stack st) = length adj"
    and cl: "\<forall>u\<in>noirs st. set (adj ! u) \<subseteq> noirs st"
    and nc: "\<forall>u\<in>noirs st. (u, u) \<notin> (rel_adj adj)\<^sup>+"
    and sv: "\<forall>v<length adj. on_stack st ! v \<longrightarrow> visited st ! v"
    by (auto simp: dfs_inv_def)
  from noirs_liberer [of node st] l assms(2,3)
  have n: "noirs (liberer st node) = insert node (noirs st)" by simp
  from assms(4) have nb: "node \<notin> noirs st" by (simp add: noirs_def)
  from pas_de_circuit_par [OF cl assms(5) nb] have c: "(node, node) \<notin> (rel_adj adj)\<^sup>+" .
  have 1: "length (visited (liberer st node)) = length adj"
    "length (on_stack (liberer st node)) = length adj"
    using l by (simp_all add: liberer_def)
  have 2: "\<forall>v<length adj. on_stack (liberer st node) ! v \<longrightarrow> visited (liberer st node) ! v"
    using sv l assms(2) by (auto simp: liberer_def nth_list_update split: if_splits)
  have 3: "\<forall>u\<in>noirs (liberer st node). set (adj ! u) \<subseteq> noirs (liberer st node)"
    unfolding n using cl assms(5) by blast
  have 4: "\<forall>u\<in>noirs (liberer st node). (u, u) \<notin> (rel_adj adj)\<^sup>+"
    unfolding n using nc c by blast
  from 1 2 3 4 show ?thesis unfolding dfs_inv_def by blast
qed

lemma dfs_complet:
  "dfs_inv adj st \<Longrightarrow> adj_ok adj \<Longrightarrow> node < length adj \<Longrightarrow> \<not> visited st ! node \<Longrightarrow>
   card (non_vus st) \<le> k \<Longrightarrow>
     \<exists>r st'. dfs k adj node st = Some (r, st') \<and>
        (\<not> truthy r \<longrightarrow> dfs_inv adj st' \<and> on_stack st' = on_stack st \<and>
           noirs st \<subseteq> noirs st' \<and> node \<in> noirs st' \<and> non_vus st' \<subseteq> non_vus st)"
  "dfs_inv adj st \<Longrightarrow> adj_ok adj \<Longrightarrow> node < length adj \<Longrightarrow> visited st ! node \<Longrightarrow>
   on_stack st ! node \<Longrightarrow> set vs \<subseteq> set (adj ! node) \<Longrightarrow>
   set (adj ! node) - set vs \<subseteq> noirs st \<Longrightarrow> card (non_vus st) \<le> k \<Longrightarrow>
     \<exists>r st'. dfs_for k adj node vs st = Some (r, st') \<and>
        (\<not> truthy r \<longrightarrow> dfs_inv adj st' \<and> on_stack st' = (on_stack st)[node := False] \<and>
           noirs st \<subseteq> noirs st' \<and> node \<in> noirs st' \<and> non_vus st' \<subseteq> non_vus st)"
proof (induction k adj node st and k adj node vs st rule: dfs_dfs_for.induct)
  case (1 adj node st)
  from "1.prems"(1,3,4) have "node \<in> non_vus st" by (simp add: non_vus_def dfs_inv_def)
  then have "card (non_vus st) \<noteq> 0" by auto
  with "1.prems"(5) show ?case by simp
next
  case (2 k adj node st)
  note IH = "2.IH" [folded marquer_def]
  from "2.prems"(1) have l: "length (visited st) = length adj" "length (on_stack st) = length adj"
    and sv: "\<forall>v<length adj. on_stack st ! v \<longrightarrow> visited st ! v"
    by (auto simp: dfs_inv_def)
  let ?st = "marquer st node"
  have i: "dfs_inv adj ?st" by (rule dfs_inv_marquer [OF "2.prems"(1,3,4)])
  have v: "visited ?st ! node" "on_stack ?st ! node"
    using l "2.prems"(3) by (simp_all add: marquer_def)
  have nv: "non_vus ?st = non_vus st - {node}"
    using non_vus_marquer [of node st] l "2.prems"(3) by simp
  have mem: "node \<in> non_vus st" using "2.prems"(3,4) l by (simp add: non_vus_def)
  then have "card (non_vus st - {node}) = card (non_vus st) - 1" by simp
  with nv "2.prems"(5) have c: "card (non_vus ?st) \<le> k" by simp
  have d: "set (adj ! node) - set (adj ! node) \<subseteq> noirs ?st" by simp
  from IH [OF i "2.prems"(2,3) v subset_refl d c] obtain r st' where
    r: "dfs_for k adj node (adj ! node) ?st = Some (r, st')"
    and post: "\<not> truthy r \<longrightarrow> dfs_inv adj st' \<and> on_stack st' = (on_stack ?st)[node := False] \<and>
           noirs ?st \<subseteq> noirs st' \<and> node \<in> noirs st' \<and> non_vus st' \<subseteq> non_vus ?st"
    by blast
  from sv "2.prems"(3,4) have "\<not> on_stack st ! node" by blast
  then have "(on_stack st)[node := False] = on_stack st"
    by (metis list_update_id)
  then have os: "(on_stack ?st)[node := False] = on_stack st" by (simp add: marquer_def)
  have nn: "noirs ?st = noirs st" using noirs_marquer [of node st] l "2.prems"(3,4) by simp
  from post have "\<not> truthy r \<longrightarrow> dfs_inv adj st' \<and> on_stack st' = on_stack st \<and>
           noirs st \<subseteq> noirs st' \<and> node \<in> noirs st' \<and> non_vus st' \<subseteq> non_vus st"
    unfolding os nn nv by blast
  with r show ?case unfolding dfs_Suc by blast
next
  case (3 k adj node st)
  from "3.prems"(1) have l: "length (visited st) = length adj" "length (on_stack st) = length adj"
    by (auto simp: dfs_inv_def)
  from "3.prems"(7) have s: "set (adj ! node) \<subseteq> noirs st" by simp
  have i: "dfs_inv adj (liberer st node)"
    by (rule dfs_inv_liberer [OF "3.prems"(1,3,4,5) s])
  have n: "noirs (liberer st node) = insert node (noirs st)"
    using noirs_liberer [of node st] l "3.prems"(3,4) by simp
  have o: "on_stack (liberer st node) = (on_stack st)[node := False]"
    by (simp add: liberer_def)
  from i n o non_vus_liberer [of st node] show ?case
    unfolding dfs_for_Nil by auto
next
  case (4 k adj node neighbor rest st)
  from "4.prems"(1) have l: "length (visited st) = length adj" "length (on_stack st) = length adj"
    by (auto simp: dfs_inv_def)
  from "4.prems"(6) have nin: "neighbor \<in> set (adj ! node)" and rs: "set rest \<subseteq> set (adj ! node)"
    by auto
  with "4.prems"(2,3) have nb: "neighbor < length adj" by (auto simp: adj_ok_def)
  show ?case
  proof (cases "visited st ! neighbor")
    case False
    from "4.IH"(1) [OF False "4.prems"(1,2) nb False "4.prems"(8)] obtain r1 st1 where
      r1: "dfs k adj neighbor st = Some (r1, st1)"
      and p1: "\<not> truthy r1 \<longrightarrow> dfs_inv adj st1 \<and> on_stack st1 = on_stack st \<and>
           noirs st \<subseteq> noirs st1 \<and> neighbor \<in> noirs st1 \<and> non_vus st1 \<subseteq> non_vus st"
      by blast
    show ?thesis
    proof (cases "truthy r1")
      case True
      with r1 False show ?thesis by simp
    next
      case nt: False
      with p1 have i1: "dfs_inv adj st1" and o1: "on_stack st1 = on_stack st"
        and n1: "noirs st \<subseteq> noirs st1" and b1: "neighbor \<in> noirs st1"
        and u1: "non_vus st1 \<subseteq> non_vus st" by auto
      from i1 have l1: "length (visited st1) = length adj" by (simp add: dfs_inv_def)
      from "4.prems"(3,4) l have "node \<notin> non_vus st" by (simp add: non_vus_def)
      with u1 have "node \<notin> non_vus st1" by blast
      with l1 "4.prems"(3) have v1: "visited st1 ! node" by (simp add: non_vus_def)
      from o1 "4.prems"(5) have s1: "on_stack st1 ! node" by simp
      from "4.prems"(7) n1 b1 have d1: "set (adj ! node) - set rest \<subseteq> noirs st1" by auto
      from card_mono [OF finite_non_vus u1] "4.prems"(8) have c1: "card (non_vus st1) \<le> k"
        by simp
      from "4.IH"(2) [OF False r1 refl nt i1 "4.prems"(2,3) v1 s1 rs d1 c1] obtain r2 st2 where
        r2: "dfs_for k adj node rest st1 = Some (r2, st2)"
        and p2: "\<not> truthy r2 \<longrightarrow> dfs_inv adj st2 \<and> on_stack st2 = (on_stack st1)[node := False] \<and>
           noirs st1 \<subseteq> noirs st2 \<and> node \<in> noirs st2 \<and> non_vus st2 \<subseteq> non_vus st1"
        by blast
      from p2 o1 n1 u1 have "\<not> truthy r2 \<longrightarrow> dfs_inv adj st2 \<and>
           on_stack st2 = (on_stack st)[node := False] \<and>
           noirs st \<subseteq> noirs st2 \<and> node \<in> noirs st2 \<and> non_vus st2 \<subseteq> non_vus st"
        by auto
      with r1 r2 False nt show ?thesis by simp
    qed
  next
    case True
    show ?thesis
    proof (cases "on_stack st ! neighbor")
      case os: True
      with True show ?thesis by simp
    next
      case os: False
      from True os nb l have "neighbor \<in> noirs st" by (simp add: noirs_def)
      with "4.prems"(7) have d: "set (adj ! node) - set rest \<subseteq> noirs st" by auto
      have nn: "\<not> \<not> visited st ! neighbor" using True by simp
      from "4.IH"(3) [OF nn os "4.prems"(1,2,3,4,5) rs d "4.prems"(8)] True os
      show ?thesis by simp
    qed
  qed
qed

section \<open>The validity verdict (C5)\<close>

lemma dfs_racines_complet:
  assumes "adj_ok adj"
  shows "dfs_inv adj st \<Longrightarrow> \<forall>v<length adj. \<not> on_stack st ! v \<Longrightarrow>
         set roots \<subseteq> {..<length adj} \<Longrightarrow> card (non_vus st) \<le> k \<Longrightarrow>
         \<forall>v<length adj. v \<notin> set roots \<longrightarrow> visited st ! v \<Longrightarrow>
         \<exists>c. dfs_racines k adj roots st = Some c \<and> (\<not> truthy c \<longrightarrow> acyclic (rel_adj adj))"
proof (induction roots arbitrary: st)
  case Nil
  from Nil(1) have l: "length (visited st) = length adj"
    and nc: "\<forall>u\<in>noirs st. (u, u) \<notin> (rel_adj adj)\<^sup>+"
    by (auto simp: dfs_inv_def)
  have "(x, x) \<notin> (rel_adj adj)\<^sup>+" for x
  proof (cases "x < length adj")
    case True
    with Nil(2,5) l have "x \<in> noirs st" by (simp add: noirs_def)
    with nc show ?thesis by blast
  next
    case False
    show ?thesis
    proof
      assume "(x, x) \<in> (rel_adj adj)\<^sup>+"
      then obtain z where "(x, z) \<in> rel_adj adj" by (auto dest: tranclD)
      with False show False by (simp add: rel_adj_def)
    qed
  qed
  then have "acyclic (rel_adj adj)" by (simp add: acyclic_def)
  then show ?case by simp
next
  case (Cons node rest)
  from Cons.prems(3) have nd: "node < length adj" and rs: "set rest \<subseteq> {..<length adj}" by auto
  from Cons.prems(1) have l: "length (visited st) = length adj" by (simp add: dfs_inv_def)
  show ?case
  proof (cases "visited st ! node")
    case True
    with Cons.prems(5) have "\<forall>v<length adj. v \<notin> set rest \<longrightarrow> visited st ! v" by auto
    from Cons.IH [OF Cons.prems(1,2) rs Cons.prems(4) this] True show ?thesis by simp
  next
    case False
    from dfs_complet(1) [OF Cons.prems(1) assms nd False Cons.prems(4)] obtain r st' where
      r: "dfs k adj node st = Some (r, st')"
      and p: "\<not> truthy r \<longrightarrow> dfs_inv adj st' \<and> on_stack st' = on_stack st \<and>
           noirs st \<subseteq> noirs st' \<and> node \<in> noirs st' \<and> non_vus st' \<subseteq> non_vus st"
      by blast
    show ?thesis
    proof (cases "truthy r")
      case True
      with r False show ?thesis by simp
    next
      case nt: False
      with p have i: "dfs_inv adj st'" and o: "on_stack st' = on_stack st"
        and b: "node \<in> noirs st'" and u: "non_vus st' \<subseteq> non_vus st" by auto
      from i have l': "length (visited st') = length adj" by (simp add: dfs_inv_def)
      from o Cons.prems(2) have o': "\<forall>v<length adj. \<not> on_stack st' ! v" by simp
      from card_mono [OF finite_non_vus u] Cons.prems(4) have c: "card (non_vus st') \<le> k"
        by simp
      have vis: "\<forall>v<length adj. v \<notin> set rest \<longrightarrow> visited st' ! v"
      proof (intro allI impI)
        fix v assume v: "v < length adj" "v \<notin> set rest"
        show "visited st' ! v"
        proof (cases "v = node")
          case True
          with b show ?thesis by (simp add: noirs_def)
        next
          case False
          with v Cons.prems(5) have "visited st ! v" by simp
          with v l have "v \<notin> non_vus st" by (simp add: non_vus_def)
          with u have "v \<notin> non_vus st'" by blast
          with v l' show ?thesis by (simp add: non_vus_def)
        qed
      qed
      from Cons.IH [OF i o' rs c vis] r False nt show ?thesis by simp
    qed
  qed
qed

lemma dfs_inv_depart:
  "dfs_inv adj \<lparr>visited = replicate (length adj) False, on_stack = replicate (length adj) False,
                 path = []\<rparr>"
  by (simp add: dfs_inv_def noirs_def)

lemma non_vus_depart:
  "card (non_vus \<lparr>visited = replicate sz False, on_stack = replicate sz False, path = []\<rparr>) \<le> Suc sz"
proof -
  have "non_vus \<lparr>visited = replicate sz False, on_stack = replicate sz False, path = []\<rparr>
        \<subseteq> {..<sz}"
    by (auto simp: non_vus_def)
  from card_mono [OF _ this] show ?thesis by simp
qed

lemma ordre_acyclique:
  assumes "adj_ok adj"
  shows "length (ordre adj) = length adj \<longleftrightarrow> acyclic (rel_adj adj)"
proof -
  from ordre_spec [OF assms] obtain deg where inv: "kahn_inv adj (deg, [], ordre adj)" by blast
  show ?thesis
  proof
    assume "length (ordre adj) = length adj"
    from kahn_correct [OF assms inv this] show "acyclic (rel_adj adj)" .
  next
    assume "acyclic (rel_adj adj)"
    from kahn_complet [OF assms inv this] have s: "set (ordre adj) = {..<length adj}" .
    from inv have "distinct (ordre adj)" by (simp add: kahn_inv_def)
    from distinct_card [OF this] s show "length (ordre adj) = length adj" by simp
  qed
qed

lemma detecter_circuit_eq:
  "detecter_circuit m =
     (if length (ordre (adj_de m)) \<noteq> length m
      then dfs_racines (Suc (length m)) (adj_de m) [0..<length m]
             \<lparr>visited = replicate (length m) False, on_stack = replicate (length m) False,
              path = []\<rparr>
      else Some PyNone)"
proof -
  from elim_while_ordre [OF adj_ok_adj_de, unfolded length_adj_de,
      of "\<lambda>u (c, t). (c + 1, t @ [u])" "\<lambda>u v a. a" m "(0 :: nat, [])"]
  obtain deg where e: "elim_while (\<lambda>u (c, t). (c + 1, t @ [u])) (\<lambda>u v a. a) (adj_de m)
      (degres (adj_de m), points_entree (length m) (degres (adj_de m)), 0 :: nat, [])
    = Some (deg, [], parcours (\<lambda>u (c, t). (c + 1, t @ [u])) (\<lambda>u v a. a) (adj_de m)
                       (ordre (adj_de m)) (0, []))"
    by blast
  have "circuit_while (adj_de m)
      (degres (adj_de m), points_entree (length m) (degres (adj_de m)), 0, [])
    = Some (deg, [], length (ordre (adj_de m)), ordre (adj_de m))"
    unfolding circuit_while_elim e parcours_compte by simp
  then show ?thesis
    by (simp add: detecter_circuit_def construire_adj_degres Let_def)
qed

lemma detecter_circuit_correct:
  "\<exists>c. detecter_circuit m = Some c \<and> (truthy c \<longleftrightarrow> \<not> acyclic (aretes m))"
proof (cases "length (ordre (adj_de m)) = length m")
  case True
  with ordre_acyclique [OF adj_ok_adj_de, of m] have "acyclic (aretes m)"
    by (simp add: rel_adj_de)
  with True show ?thesis by (simp add: detecter_circuit_eq)
next
  case False
  with ordre_acyclique [OF adj_ok_adj_de, of m] have na: "\<not> acyclic (aretes m)"
    by (simp add: rel_adj_de)
  have 1: "dfs_inv (adj_de m) \<lparr>visited = replicate (length m) False,
      on_stack = replicate (length m) False, path = []\<rparr>"
    using dfs_inv_depart [of "adj_de m"] by simp
  have 2: "\<forall>v<length (adj_de m). \<not> on_stack \<lparr>visited = replicate (length m) False,
      on_stack = replicate (length m) False, path = []\<rparr> ! v"
    by simp
  have 3: "set [0..<length m] \<subseteq> {..<length (adj_de m)}" by auto
  have 4: "\<forall>v<length (adj_de m). v \<notin> set [0..<length m] \<longrightarrow> visited \<lparr>visited = replicate (length m) False,
      on_stack = replicate (length m) False, path = []\<rparr> ! v"
    by simp
  from dfs_racines_complet [OF adj_ok_adj_de 1 2 3 non_vus_depart 4]
  obtain c where "dfs_racines (Suc (length m)) (adj_de m) [0..<length m]
      \<lparr>visited = replicate (length m) False, on_stack = replicate (length m) False, path = []\<rparr>
      = Some c" and "\<not> truthy c \<longrightarrow> acyclic (aretes m)"
    by (auto simp: rel_adj_de)
  with na False show ?thesis by (auto simp: detecter_circuit_eq)
qed

lemma has_negative_iff:
  "has_negative m \<longleftrightarrow> (\<exists>i<length m. \<exists>j<length m. \<exists>w. m ! i ! j = Some w \<and> w < 0)"
proof
  assume "has_negative m"
  then obtain i j where "i < length m" "j < length m"
    "case m ! i ! j of None \<Rightarrow> False | Some w \<Rightarrow> w < 0"
    unfolding has_negative_def list_ex_iff by auto
  then show "\<exists>i<length m. \<exists>j<length m. \<exists>w. m ! i ! j = Some w \<and> w < 0"
    by (cases "m ! i ! j") auto
next
  assume "\<exists>i<length m. \<exists>j<length m. \<exists>w. m ! i ! j = Some w \<and> w < 0"
  then obtain i j w where ij: "i < length m" "j < length m" and w: "m ! i ! j = Some w" "w < 0"
    by blast
  from w have c: "case m ! i ! j of None \<Rightarrow> False | Some w \<Rightarrow> w < 0" by simp
  from ij have "i \<in> set [0..<length m]" "j \<in> set [0..<length m]" by simp_all
  with c show "has_negative m"
    unfolding has_negative_def list_ex_iff by blast
qed

text \<open>
  C5: on every built graph \<open>verifier_proprietes\<close> returns, and what it returns is \<^verbatim>\<open>True\<close>
  exactly when no arc of the matrix has a negative value and the graph has no circuit. A
  negative value raises nothing; it makes the result \<^verbatim>\<open>False\<close>.
\<close>

theorem C5_verifier_proprietes:
  assumes "construire_graphe (lire_fichier tt s0) = Inr s" "matrix s = Some m"
  shows "verifier_proprietes s =
           Some ((\<forall>i<length m. \<forall>j<length m. \<forall>w. m ! i ! j = Some w \<longrightarrow> 0 \<le> w) \<and>
                 acyclic (aretes m))"
proof -
  from lire_construit [OF assms(1)] assms(2) have "length m = length tt + 2" by auto
  then have ne: "m \<noteq> []" by auto
  from detecter_circuit_correct [of m] obtain c where
    c: "detecter_circuit m = Some c" "truthy c \<longleftrightarrow> \<not> acyclic (aretes m)" by blast
  have "\<not> has_negative m \<longleftrightarrow> (\<forall>i<length m. \<forall>j<length m. \<forall>w. m ! i ! j = Some w \<longrightarrow> 0 \<le> w)"
    unfolding has_negative_iff by (meson not_less)
  with assms(2) ne c show ?thesis by (simp add: verifier_proprietes_def)
qed

lemma exemple_valide: "verifier_proprietes graphe_exemple = Some True"
  by code_simp

theorem C5_verifier_proprietes_witness:
  "construire_graphe (lire_fichier exemple init) = Inr graphe_exemple \<and>
   matrix graphe_exemple = Some matrice_exemple \<and>
   verifier_proprietes graphe_exemple = Some True \<and> acyclic (aretes matrice_exemple) \<and>
   construire_graphe (lire_fichier exemple_circuit init) = Inr graphe_circuit \<and>
   matrix graphe_circuit = Some matrice_circuit \<and>
   verifier_proprietes graphe_circuit = Some False \<and> \<not> acyclic (aretes matrice_circuit)"
proof -
  have m1: "matrix graphe_exemple = Some matrice_exemple" by (simp add: graphe_exemple_def)
  have m2: "matrix graphe_circuit = Some matrice_circuit" by (simp add: graphe_circuit_def)
  have p: "\<forall>i<length matrice_circuit. \<forall>j<length matrice_circuit. \<forall>w.
             matrice_circuit ! i ! j = Some w \<longrightarrow> 0 \<le> w"
    by (simp add: matrice_circuit_def less_Suc_eq all_conj_distrib numeral_eq_Suc)
  from C5_verifier_proprietes [OF exemple_construit m1] exemple_valide
  have a1: "acyclic (aretes matrice_exemple)" by simp
  from C5_verifier_proprietes [OF circuit_construit m2] circuit_non_valide p
  have a2: "\<not> acyclic (aretes matrice_circuit)" by simp
  from exemple_construit circuit_construit m1 m2 exemple_valide circuit_non_valide a1 a2
  show ?thesis by simp
qed

section \<open>Relaxation along the order of elimination\<close>

definition topo_ok :: "nat list list \<Rightarrow> nat list \<Rightarrow> bool" where
  "topo_ok adj xs \<longleftrightarrow>
     distinct xs \<and> set xs \<subseteq> {..<length adj} \<and>
     (\<forall>i<length xs. \<forall>u<length adj. xs ! i \<in> set (adj ! u) \<longrightarrow> u \<in> set (take i xs))"

lemma topo_ok_prefixe: "topo_ok adj (xs @ [w]) \<Longrightarrow> topo_ok adj xs"
  unfolding topo_ok_def
proof (intro conjI allI impI)
  assume a: "distinct (xs @ [w]) \<and> set (xs @ [w]) \<subseteq> {..<length adj} \<and>
     (\<forall>i<length (xs @ [w]). \<forall>u<length adj.
        (xs @ [w]) ! i \<in> set (adj ! u) \<longrightarrow> u \<in> set (take i (xs @ [w])))"
  then show "distinct xs" "set xs \<subseteq> {..<length adj}" by auto
  fix i u assume i: "i < length xs" and u: "u < length adj" and e: "xs ! i \<in> set (adj ! u)"
  from a i u e have "u \<in> set (take i (xs @ [w]))"
    by (metis less_Suc_eq length_append_singleton nth_append)
  with i show "u \<in> set (take i xs)" by simp
qed

lemma topo_ok_cible:
  assumes "topo_ok adj (xs @ [w])" "v \<in> set (adj ! w)"
  shows "v \<notin> set (xs @ [w])"
proof
  assume "v \<in> set (xs @ [w])"
  then obtain i where i: "i < length (xs @ [w])" "(xs @ [w]) ! i = v"
    by (metis in_set_conv_nth)
  from assms(1) have d: "distinct (xs @ [w])" and w: "w < length adj"
    and o: "\<forall>i<length (xs @ [w]). \<forall>u<length adj.
        (xs @ [w]) ! i \<in> set (adj ! u) \<longrightarrow> u \<in> set (take i (xs @ [w]))"
    by (auto simp: topo_ok_def)
  from o i w assms(2) have "w \<in> set (take i (xs @ [w]))" by blast
  moreover from i(1) have "take i (xs @ [w]) = take i xs" by simp
  ultimately have "w \<in> set xs" by (auto dest: in_set_takeD)
  with d show False by simp
qed

lemma ordre_topo_ok:
  assumes "adj_ok adj"
  shows "topo_ok adj (ordre adj)"
proof -
  from ordre_spec [OF assms] obtain deg where "kahn_inv adj (deg, [], ordre adj)" by blast
  then show ?thesis by (auto simp: kahn_inv_def topo_ok_def)
qed

lemma relaxer_fold:
  assumes "distinct vs" "w \<notin> set vs" "\<forall>v\<in>set vs. v < length r"
  shows "length (fold (relaxer lt ext w) vs r) = length r \<and>
         (\<forall>x<length r. fold (relaxer lt ext w) vs r ! x =
            (if x \<in> set vs \<and> lt (r ! x) (ext w x (r ! w)) then ext w x (r ! w) else r ! x))"
  using assms
proof (induction vs arbitrary: r)
  case Nil
  then show ?case by simp
next
  case (Cons v vs)
  let ?r = "relaxer lt ext w v r"
  from Cons.prems have v: "v < length r" "v \<noteq> w" "v \<notin> set vs" by auto
  have lr: "length ?r = length r" by simp
  have rw: "?r ! w = r ! w" using v by (simp add: relaxer_def)
  have rx: "?r ! x = (if x = v \<and> lt (r ! v) (ext w v (r ! w)) then ext w v (r ! w) else r ! x)"
    if "x < length r" for x
    using that v by (simp add: relaxer_def nth_list_update)
  from Cons.prems have p: "distinct vs" "w \<notin> set vs" "\<forall>v\<in>set vs. v < length ?r" by auto
  from Cons.IH [OF p] have IH: "length (fold (relaxer lt ext w) vs ?r) = length r"
    "\<forall>x<length r. fold (relaxer lt ext w) vs ?r ! x =
       (if x \<in> set vs \<and> lt (?r ! x) (ext w x (?r ! w)) then ext w x (?r ! w) else ?r ! x)"
    by (simp_all add: lr)
  show ?case
  proof (intro conjI allI impI)
    show "length (fold (relaxer lt ext w) (v # vs) r) = length r" using IH(1) by simp
    fix x assume x: "x < length r"
    show "fold (relaxer lt ext w) (v # vs) r ! x =
        (if x \<in> set (v # vs) \<and> lt (r ! x) (ext w x (r ! w)) then ext w x (r ! w) else r ! x)"
    proof (cases "x \<in> set vs")
      case True
      with v have xv: "x \<noteq> v" by auto
      from IH(2) x have "fold (relaxer lt ext w) vs ?r ! x =
        (if x \<in> set vs \<and> lt (?r ! x) (ext w x (?r ! w)) then ext w x (?r ! w) else ?r ! x)"
        by blast
      also from rx [OF x] xv have "?r ! x = r ! x" by simp
      finally show ?thesis using True rw by simp
    next
      case False
      from IH(2) x have "fold (relaxer lt ext w) vs ?r ! x =
        (if x \<in> set vs \<and> lt (?r ! x) (ext w x (?r ! w)) then ext w x (?r ! w) else ?r ! x)"
        by blast
      with False have "fold (relaxer lt ext w) vs ?r ! x = ?r ! x" by simp
      with rx [OF x] False show ?thesis by (cases "x = v") simp_all
    qed
  qed
qed

lemma parcours_snoc:
  "parcours g f adj (xs @ [w]) a = fold (f w) (adj ! w) (g w (parcours g f adj xs a))"
  by (simp add: parcours_def)

lemma parcours_relaxer:
  fixes lt :: "'b \<Rightarrow> 'b \<Rightarrow> bool"
  assumes trans: "\<And>a b c. lt a b \<Longrightarrow> lt b c \<Longrightarrow> lt a c" and irr: "\<And>a. \<not> lt a a"
    and ok: "adj_ok adj" and len: "length r0 = length adj"
  shows "topo_ok adj xs \<Longrightarrow>
     length (parcours (\<lambda>u a. a) (relaxer lt ext) adj xs r0) = length adj \<and>
     (\<forall>v<length adj. parcours (\<lambda>u a. a) (relaxer lt ext) adj xs r0 ! v = r0 ! v \<or>
         (\<exists>u\<in>set xs. v \<in> set (adj ! u) \<and>
             parcours (\<lambda>u a. a) (relaxer lt ext) adj xs r0 ! v
               = ext u v (parcours (\<lambda>u a. a) (relaxer lt ext) adj xs r0 ! u))) \<and>
     (\<forall>u\<in>set xs. \<forall>v\<in>set (adj ! u).
         \<not> lt (parcours (\<lambda>u a. a) (relaxer lt ext) adj xs r0 ! v)
              (ext u v (parcours (\<lambda>u a. a) (relaxer lt ext) adj xs r0 ! u))) \<and>
     (\<forall>v<length adj. \<not> lt (parcours (\<lambda>u a. a) (relaxer lt ext) adj xs r0 ! v) (r0 ! v))"
proof (induction xs rule: rev_induct)
  case Nil
  show ?case by (simp add: parcours_def len irr)
next
  case (snoc w xs)
  define r1 where "r1 = parcours (\<lambda>u a. a) (relaxer lt ext) adj xs r0"
  define r2 where "r2 = parcours (\<lambda>u a. a) (relaxer lt ext) adj (xs @ [w]) r0"
  from snoc.IH [OF topo_ok_prefixe [OF snoc.prems]]
  have l1: "length r1 = length adj"
    and A1: "\<And>v. v < length adj \<Longrightarrow> r1 ! v = r0 ! v \<or>
               (\<exists>u\<in>set xs. v \<in> set (adj ! u) \<and> r1 ! v = ext u v (r1 ! u))"
    and B1: "\<And>u v. u \<in> set xs \<Longrightarrow> v \<in> set (adj ! u) \<Longrightarrow> \<not> lt (r1 ! v) (ext u v (r1 ! u))"
    and C1: "\<And>v. v < length adj \<Longrightarrow> \<not> lt (r1 ! v) (r0 ! v)"
    unfolding r1_def by blast+
  from snoc.prems have w: "w < length adj" and sub: "set xs \<subseteq> {..<length adj}"
    by (auto simp: topo_ok_def)
  let ?vs = "adj ! w"
  from ok w have dvs: "distinct ?vs" and bvs: "\<forall>v\<in>set ?vs. v < length r1"
    by (auto simp: adj_ok_def l1)
  have hors: "v \<notin> set (xs @ [w])" if "v \<in> set ?vs" for v
    using topo_ok_cible [OF snoc.prems that] .
  then have wn: "w \<notin> set ?vs" by auto
  have r2: "r2 = fold (relaxer lt ext w) ?vs r1"
    by (simp add: r2_def r1_def parcours_snoc)
  from relaxer_fold [OF dvs wn bvs, of lt ext] have l2: "length r2 = length adj"
    and n2: "\<And>x. x < length adj \<Longrightarrow> r2 ! x =
       (if x \<in> set ?vs \<and> lt (r1 ! x) (ext w x (r1 ! w)) then ext w x (r1 ! w) else r1 ! x)"
    unfolding r2 l1 by blast+
  have same: "r2 ! u = r1 ! u" if "u \<in> set (xs @ [w])" for u
  proof -
    from that w sub have "u < length adj" by auto
    moreover from that hors have "u \<notin> set ?vs" by blast
    ultimately show ?thesis using n2 by simp
  qed
  have mono: "\<not> lt (r2 ! v) X" if "v < length adj" "\<not> lt (r1 ! v) X" for v X
  proof (cases "v \<in> set ?vs \<and> lt (r1 ! v) (ext w v (r1 ! w))")
    case True
    with n2 [OF that(1)] have e: "r2 ! v = ext w v (r1 ! w)" by simp
    show ?thesis
    proof
      assume "lt (r2 ! v) X"
      with True e have "lt (r1 ! v) X" using trans by metis
      with that(2) show False by simp
    qed
  next
    case False
    with n2 [OF that(1)] that(2) show ?thesis by auto
  qed
  have A2: "r2 ! v = r0 ! v \<or> (\<exists>u\<in>set (xs @ [w]). v \<in> set (adj ! u) \<and> r2 ! v = ext u v (r2 ! u))"
    if v: "v < length adj" for v
  proof (cases "v \<in> set ?vs \<and> lt (r1 ! v) (ext w v (r1 ! w))")
    case True
    with n2 [OF v] have "r2 ! v = ext w v (r1 ! w)" by simp
    with same [of w] True show ?thesis by auto
  next
    case False
    with n2 [OF v] have e: "r2 ! v = r1 ! v" by auto
    from A1 [OF v] show ?thesis
    proof
      assume "r1 ! v = r0 ! v"
      with e show ?thesis by simp
    next
      assume "\<exists>u\<in>set xs. v \<in> set (adj ! u) \<and> r1 ! v = ext u v (r1 ! u)"
      then obtain u where u: "u \<in> set xs" "v \<in> set (adj ! u)" "r1 ! v = ext u v (r1 ! u)"
        by blast
      from u(1) same [of u] have "r2 ! u = r1 ! u" by simp
      with u e show ?thesis by auto
    qed
  qed
  have B2: "\<not> lt (r2 ! v) (ext u v (r2 ! u))"
    if u: "u \<in> set (xs @ [w])" and v: "v \<in> set (adj ! u)" for u v
  proof -
    from u w sub have ul: "u < length adj" by auto
    with ok v have vl: "v < length adj" by (auto simp: adj_ok_def)
    from same [OF u] have su: "r2 ! u = r1 ! u" .
    show ?thesis
    proof (cases "u = w")
      case False
      with u have "u \<in> set xs" by simp
      from mono [OF vl B1 [OF this v]] su show ?thesis by simp
    next
      case True
      show ?thesis
      proof (cases "lt (r1 ! v) (ext w v (r1 ! w))")
        case lt1: True
        with n2 [OF vl] v True have "r2 ! v = ext w v (r1 ! w)" by simp
        with su True irr show ?thesis by simp
      next
        case lt1: False
        with n2 [OF vl] have "r2 ! v = r1 ! v" by simp
        with lt1 su True show ?thesis by simp
      qed
    qed
  qed
  have C2: "\<not> lt (r2 ! v) (r0 ! v)" if "v < length adj" for v
    using mono [OF that C1 [OF that]] .
  from l2 A2 B2 C2 show ?case unfolding r2_def by blast
qed

section \<open>Relaxation on an acyclic graph\<close>

lemma relaxation_acyclique:
  fixes lt :: "'b \<Rightarrow> 'b \<Rightarrow> bool"
  assumes trans: "\<And>a b c. lt a b \<Longrightarrow> lt b c \<Longrightarrow> lt a c" and irr: "\<And>a. \<not> lt a a"
    and ok: "adj_ok adj" and len: "length r0 = length adj" and ac: "acyclic (rel_adj adj)"
    and r: "r = parcours (\<lambda>u a. a) (relaxer lt ext) adj (ordre adj) r0"
  shows "length r = length adj"
    and "\<And>v. v < length adj \<Longrightarrow>
           r ! v = r0 ! v \<or> (\<exists>u. (u, v) \<in> rel_adj adj \<and> r ! v = ext u v (r ! u))"
    and "\<And>u v. (u, v) \<in> rel_adj adj \<Longrightarrow> \<not> lt (r ! v) (ext u v (r ! u))"
    and "\<And>v. v < length adj \<Longrightarrow> \<not> lt (r ! v) (r0 ! v)"
proof -
  from ordre_spec [OF ok] obtain deg where inv: "kahn_inv adj (deg, [], ordre adj)" by blast
  from kahn_complet [OF ok inv ac] have tous: "set (ordre adj) = {..<length adj}" .
  have P: "length r = length adj \<and>
     (\<forall>v<length adj. r ! v = r0 ! v \<or>
         (\<exists>u\<in>set (ordre adj). v \<in> set (adj ! u) \<and> r ! v = ext u v (r ! u))) \<and>
     (\<forall>u\<in>set (ordre adj). \<forall>v\<in>set (adj ! u). \<not> lt (r ! v) (ext u v (r ! u))) \<and>
     (\<forall>v<length adj. \<not> lt (r ! v) (r0 ! v))"
    unfolding r
  proof (rule parcours_relaxer [where lt = lt])
    show "lt a c" if "lt a b" "lt b c" for a b c using that by (rule trans)
    show "\<not> lt a a" for a by (rule irr)
    show "adj_ok adj" by (rule ok)
    show "length r0 = length adj" by (rule len)
    show "topo_ok adj (ordre adj)" by (rule ordre_topo_ok [OF ok])
  qed
  from P show "length r = length adj" by blast
  show "r ! v = r0 ! v \<or> (\<exists>u. (u, v) \<in> rel_adj adj \<and> r ! v = ext u v (r ! u))"
    if "v < length adj" for v
  proof -
    from P that have "r ! v = r0 ! v \<or>
        (\<exists>u\<in>set (ordre adj). v \<in> set (adj ! u) \<and> r ! v = ext u v (r ! u))" by blast
    then show ?thesis unfolding tous by (auto simp: rel_adj_def)
  qed
  show "\<not> lt (r ! v) (ext u v (r ! u))" if "(u, v) \<in> rel_adj adj" for u v
  proof -
    from that have "u \<in> set (ordre adj)" "v \<in> set (adj ! u)"
      unfolding tous by (auto simp: rel_adj_def)
    with P show ?thesis by blast
  qed
  from P show "\<not> lt (r ! v) (r0 ! v)" if "v < length adj" for v using that by blast
qed

section \<open>Running the chain again (C9)\<close>

text \<open>
  The menu of \<^verbatim>\<open>main\<close>, on one object \<^verbatim>\<open>ordonnancement\<close> that lives as long as the program.
  Entry 1 (\<open>charger\<close>): \<^verbatim>\<open>lire_fichier\<close>, then \<^verbatim>\<open>construire_graphe\<close>. Entry 6 (\<open>entree_6\<close>):
  \<^verbatim>\<open>early, late, _ = calculer_calendriers()\<close>, then \<^verbatim>\<open>trouver_chemins_critiques(early, late)\<close>;
  an exception of the first call ends the entry.
\<close>

definition charger :: "task_table \<Rightarrow> ordonnancement \<Rightarrow> error + ordonnancement" where
  "charger tt s = construire_graphe (lire_fichier tt s)"

definition entree_6 :: "nat \<Rightarrow> ordonnancement \<Rightarrow> (error + nat list list option) option" where
  "entree_6 k s =
     (case calculer_calendriers s of
        None \<Rightarrow> None
      | Some (Inl e) \<Rightarrow> Some (Inl e)
      | Some (Inr None) \<Rightarrow> trouver_chemins_critiques k s None None
      | Some (Inr (Some (early, late, margins))) \<Rightarrow>
          trouver_chemins_critiques k s (Some early) (Some late))"

text \<open>
  The chain of the four steps on the object \<open>s0\<close>, whatever was done with it before: the
  table is loaded and the graph built (entry 1), then the ranks (entry 4), the calendars
  (entry 5) and the critical paths (entry 6) are computed. The methods print what they
  compute; \<open>chaine\<close> returns it, with the object as the chain leaves it.
\<close>

definition chaine ::
  "nat \<Rightarrow> task_table \<Rightarrow> ordonnancement
     \<Rightarrow> error + ordonnancement \<times> int list option option
           \<times> (error + (int list \<times> date list \<times> date list) option) option
           \<times> (error + nat list list option) option" where
  "chaine k tt s0 =
     (case charger tt s0 of
        Inl e \<Rightarrow> Inl e
      | Inr s \<Rightarrow> Inr (s, calculer_rangs s, calculer_calendriers s, entree_6 k s))"

lemma charger_alpha:
  assumes "alpha s0' = alpha s0"
  shows "charger tt s0' = charger tt s0"
proof -
  have a: "arcs_alpha (alpha (lire_fichier tt s0')) = arcs_alpha (alpha (lire_fichier tt s0))"
    using assms by (simp add: lire_fichier_def)
  have f: "tasks (lire_fichier tt s0') = tasks (lire_fichier tt s0)"
    "n (lire_fichier tt s0') = n (lire_fichier tt s0)"
    "omega (lire_fichier tt s0') = omega (lire_fichier tt s0)"
    by (simp_all add: lire_fichier_def)
  have e: "(lire_fichier tt s0')\<lparr>matrix := x\<rparr> = (lire_fichier tt s0)\<lparr>matrix := x\<rparr>" for x
    using assms by (simp add: lire_fichier_def)
  show ?thesis
    unfolding charger_def construire_graphe_def Let_def a f e by (rule refl)
qed

lemma charger_encore:
  assumes "charger tt s0 = Inr s"
  shows "charger tt s = Inr s"
proof -
  from assms have "construire_graphe (lire_fichier tt s0) = Inr s" by (simp add: charger_def)
  from lire_construit [OF this] have "alpha s = alpha s0" by blast
  from charger_alpha [OF this] assms show ?thesis by simp
qed

text \<open>
  C9: the outputs of the chain depend on the task table alone. Run on two objects with the
  same \<open>alpha\<close> (it is 0 from \<^verbatim>\<open>__init__\<close> on, no method writes it), whatever their tables
  and matrices were before, the chain gives the same graph, ranks, earliest and latest
  dates, margins and list of critical paths (or the same exception); and run again on the
  object it has left, it gives again what it gave.
\<close>

theorem C9_determinisme:
  "(alpha s0' = alpha s0 \<longrightarrow> chaine k tt s0' = chaine k tt s0) \<and>
   (\<forall>s r. chaine k tt s0 = Inr (s, r) \<longrightarrow> chaine k tt s = Inr (s, r))"
proof (intro conjI allI impI)
  assume "alpha s0' = alpha s0"
  from charger_alpha [OF this] show "chaine k tt s0' = chaine k tt s0"
    by (simp add: chaine_def)
next
  fix s r
  assume a: "chaine k tt s0 = Inr (s, r)"
  then obtain s1 where s1: "charger tt s0 = Inr s1" by (auto simp: chaine_def split: sum.splits)
  with a have "s1 = s" by (simp add: chaine_def)
  with s1 have "charger tt s0 = Inr s" by simp
  from charger_encore [OF this] this a show "chaine k tt s = Inr (s, r)"
    by (simp add: chaine_def)
qed

lemma exemple_rangs: "calculer_rangs graphe_exemple = Some (Some [0, 1, 1, 2, 3, 4])"
  by code_simp

lemma exemple_chaine:
  "chaine 6 exemple init =
     Inr (graphe_exemple, Some (Some [0, 1, 1, 2, 3, 4]),
          Some (Inr (Some ([0, 0, 0, 3, 7, 8],
                           [Fin 0, Fin 0, Fin 1, Fin 3, Fin 7, Fin 8],
                           [Fin 0, Fin 0, Fin 1, Fin 0, Fin 0, Fin 0]))),
          Some (Inr (Some [[0, 1, 3, 4, 5]])))"
  by (simp add: chaine_def charger_def exemple_construit exemple_rangs exemple_calendriers
      entree_6_def exemple_chemins)

theorem C9_determinisme_witness:
  "alpha graphe_circuit = alpha init \<and>
   chaine 6 exemple graphe_circuit = chaine 6 exemple init \<and>
   chaine 6 exemple init =
     Inr (graphe_exemple, Some (Some [0, 1, 1, 2, 3, 4]),
          Some (Inr (Some ([0, 0, 0, 3, 7, 8],
                           [Fin 0, Fin 0, Fin 1, Fin 3, Fin 7, Fin 8],
                           [Fin 0, Fin 0, Fin 1, Fin 0, Fin 0, Fin 0]))),
          Some (Inr (Some [[0, 1, 3, 4, 5]]))) \<and>
   chaine 6 exemple graphe_exemple =
     Inr (graphe_exemple, Some (Some [0, 1, 1, 2, 3, 4]),
          Some (Inr (Some ([0, 0, 0, 3, 7, 8],
                           [Fin 0, Fin 0, Fin 1, Fin 3, Fin 7, Fin 8],
                           [Fin 0, Fin 0, Fin 1, Fin 0, Fin 0, Fin 0]))),
          Some (Inr (Some [[0, 1, 3, 4, 5]])))"
proof -
  have a: "alpha graphe_circuit = alpha init" by (simp add: graphe_circuit_def init_def)
  from C9_determinisme [of graphe_circuit init 6 exemple] a
  have 1: "chaine 6 exemple graphe_circuit = chaine 6 exemple init" by blast
  from C9_determinisme [of init init 6 exemple] exemple_chaine
  have 2: "chaine 6 exemple graphe_exemple =
     Inr (graphe_exemple, Some (Some [0, 1, 1, 2, 3, 4]),
          Some (Inr (Some ([0, 0, 0, 3, 7, 8],
                           [Fin 0, Fin 0, Fin 1, Fin 3, Fin 7, Fin 8],
                           [Fin 0, Fin 0, Fin 1, Fin 0, Fin 0, Fin 0]))),
          Some (Inr (Some [[0, 1, 3, 4, 5]])))"
    by blast
  from a 1 2 exemple_chaine show ?thesis by simp
qed

section \<open>The critical paths (C7)\<close>





lemma length_adj_critique [simp]: "length (adj_critique sz ces) = sz"
proof -
  have "length (fold (\<lambda>(u, v) adj. adj[u := adj ! u @ [v]]) ces adj) = length adj"
    for adj :: "nat list list"
    by (induction ces arbitrary: adj) (auto split: prod.splits)
  then show ?thesis by (simp add: adj_critique_def)
qed





subsection \<open>What the enumeration appends\<close>




subsection \<open>The enumeration ends when the arcs without slack form no circuit\<close>








lemma exemple_sans_circuit: "acyclic (aretes matrice_exemple)"
proof -
  have "map_option truthy (detecter_circuit matrice_exemple) = Some False" by code_simp
  with detecter_circuit_correct [of matrice_exemple] show ?thesis by auto
qed


section \<open>The ranks (C6)\<close>



lemma finite_aretes: "finite (aretes m)"
proof -
  have "aretes m \<subseteq> {..<length m} \<times> {..<length m}" by (auto simp: aretes_def)
  then show ?thesis by (rule finite_subset) simp
qed

lemma relaxation_acyclique_tout:
  fixes lt :: "'b \<Rightarrow> 'b \<Rightarrow> bool"
  assumes tr: "\<forall>a b c. lt a b \<longrightarrow> lt b c \<longrightarrow> lt a c" and ir: "\<forall>a. \<not> lt a a"
    and ok: "adj_ok adj" and len: "length r0 = length adj" and ac: "acyclic (rel_adj adj)"
    and r: "r = parcours (\<lambda>u a. a) (relaxer lt ext) adj (ordre adj) r0"
  shows "length r = length adj \<and>
    (\<forall>v<length adj. r ! v = r0 ! v \<or> (\<exists>u. (u, v) \<in> rel_adj adj \<and> r ! v = ext u v (r ! u))) \<and>
    (\<forall>u v. (u, v) \<in> rel_adj adj \<longrightarrow> \<not> lt (r ! v) (ext u v (r ! u))) \<and>
    (\<forall>v<length adj. \<not> lt (r ! v) (r0 ! v))"
proof (intro conjI allI impI)
  have t: "lt a c" if "lt a b" "lt b c" for a b c using tr that by blast
  have i: "\<not> lt a a" for a using ir by blast
  show "length r = length adj"
  proof (rule relaxation_acyclique(1) [where lt = lt and ext = ext and ?r0.0 = r0])
    show "lt a c" if "lt a b" "lt b c" for a b c using that by (rule t)
    show "\<not> lt a a" for a by (rule i)
  qed (fact ok len ac r)+
  show "r ! v = r0 ! v \<or> (\<exists>u. (u, v) \<in> rel_adj adj \<and> r ! v = ext u v (r ! u))"
    if "v < length adj" for v
  proof (rule relaxation_acyclique(2) [where lt = lt and ext = ext and ?r0.0 = r0])
    show "lt a c" if "lt a b" "lt b c" for a b c using that by (rule t)
    show "\<not> lt a a" for a by (rule i)
  qed (fact ok len ac r that)+
  show "\<not> lt (r ! v) (ext u v (r ! u))" if "(u, v) \<in> rel_adj adj" for u v
  proof (rule relaxation_acyclique(3) [where lt = lt and ext = ext and ?r0.0 = r0])
    show "lt a c" if "lt a b" "lt b c" for a b c using that by (rule t)
    show "\<not> lt a a" for a by (rule i)
  qed (fact ok len ac r that)+
  show "\<not> lt (r ! v) (r0 ! v)" if "v < length adj" for v
  proof (rule relaxation_acyclique(4) [where lt = lt and ext = ext and ?r0.0 = r0])
    show "lt a c" if "lt a b" "lt b c" for a b c using that by (rule t)
    show "\<not> lt a a" for a by (rule i)
  qed (fact ok len ac r that)+
qed




subsection \<open>The sources of a built graph\<close>

lemma alpha_sans_predecesseur:
  assumes build: "construire_graphe (lire_fichier tt s0) = Inr s" and a0: "alpha s0 = 0"
    and ids: "ids_ok tt" and m: "matrix s = Some m"
  shows "(u, 0) \<notin> aretes m"
proof
  assume "(u, 0) \<in> aretes m"
  then have u: "u < length m" and z: "0 < length m" and c: "m ! u ! 0 \<noteq> None"
    by (auto simp: aretes_def)
  from construit_cells(2) [OF build a0 ids m u z] c have "arc_tache tt u 0" by simp
  then obtain d ps where "(int 0, d, ps) \<in> set tt" unfolding arc_tache_def by blast
  from construit_cells(4) [OF build a0 ids m this] show False by simp
qed

lemma tache_a_predecesseur:
  assumes build: "construire_graphe (lire_fichier tt s0) = Inr s" and a0: "alpha s0 = 0"
    and ids: "ids_ok tt" and m: "matrix s = Some m"
    and k: "(int v, d, ps) \<in> set tt"
  shows "\<exists>u. (u, v) \<in> aretes m"
proof -
  note C = construit_cells [OF build a0 ids m]
  from C(4) [OF k] have v: "v < length m" and r: "\<forall>p\<in>set ps. p \<in> fst ` set tt" by auto
  from C(1) have z: "0 < length m" by simp
  show ?thesis
  proof (cases ps)
    case Nil
    with k have "arc_tache tt 0 v" unfolding arc_tache_def by blast
    with C(2) [OF z v] have "m ! 0 ! v \<noteq> None" by simp
    with z v have "(0, v) \<in> aretes m" by (simp add: aretes_def)
    then show ?thesis ..
  next
    case (Cons p ps')
    with r have "p \<in> fst ` set tt" by simp
    then obtain d' qs where e: "(p, d', qs) \<in> set tt" by force
    from C(4) [OF e] have p: "1 \<le> p" "nat p < length m" by auto
    from p(1) Cons have "int (nat p) \<in> set ps" by simp
    with k have "arc_tache tt (nat p) v" unfolding arc_tache_def by blast
    with C(2) [OF p(2) v] have "m ! nat p ! v \<noteq> None" by simp
    with p(2) v have "(nat p, v) \<in> aretes m" by (simp add: aretes_def)
    then show ?thesis ..
  qed
qed


lemma omega_a_predecesseur:
  assumes build: "construire_graphe (lire_fichier tt s0) = Inr s" and a0: "alpha s0 = 0"
    and ids: "ids_ok tt" and m: "matrix s = Some m" and ac: "acyclic (aretes m)"
    and ne: "tt \<noteq> []" and le: "\<forall>k\<in>fst ` set tt. k \<le> int (length tt)"
  shows "\<exists>u. (u, length tt + 1) \<in> aretes m"
proof -
  note C = construit_cells [OF build a0 ids m]
  define Q where "Q = {i. i < length m \<and> int i \<in> fst ` set tt}"
  from ne obtain k d ps where e: "(k, d, ps) \<in> set tt" by (cases tt) auto
  from C(4) [OF e] have "nat k < length m" "int (nat k) = k" by auto
  with e have kq: "nat k \<in> Q" unfolding Q_def by force
  from finite_aretes ac have "wf ((aretes m)\<inverse>)" by (rule finite_acyclic_wf_converse)
  from this kq obtain z where z: "z \<in> Q" and mn: "\<And>y. (y, z) \<in> (aretes m)\<inverse> \<Longrightarrow> y \<notin> Q"
    by (rule wfE_min) blast
  from z have zl: "z < length m" and zk: "int z \<in> fst ` set tt" by (auto simp: Q_def)
  from zk ids have z1: "z \<noteq> 0" by (auto simp: ids_ok_def)
  from zk le have zo: "z \<noteq> length tt + 1" by auto
  from C(1) have ol: "length tt + 1 < length m" by simp
  have "\<not> (\<exists>j'<length m. arc_tache tt z j')"
  proof
    assume "\<exists>j'<length m. arc_tache tt z j'"
    then obtain j where j: "j < length m" "arc_tache tt z j" by blast
    from j(2) z1 obtain d' ps' where "(int j, d', ps') \<in> set tt" unfolding arc_tache_def by blast
    then have "int j \<in> fst ` set tt" by force
    with j(1) have "j \<in> Q" by (simp add: Q_def)
    moreover from C(2) [OF zl j(1)] j(2) have "m ! z ! j \<noteq> None" by simp
    with zl j(1) have "(j, z) \<in> (aretes m)\<inverse>" by (simp add: aretes_def)
    ultimately show False using mn by blast
  qed
  with C(2) [OF zl ol] zo zk have "m ! z ! (length tt + 1) \<noteq> None" by simp
  with zl ol have "(z, length tt + 1) \<in> aretes m" by (simp add: aretes_def)
  then show ?thesis ..
qed



text \<open>The empty table, and the graph built from it.\<close>

definition graphe_vide :: ordonnancement where
  "graphe_vide =
     \<lparr>tasks = [], matrix = Some [[None, None], [None, None]], n = 0, alpha = 0, omega = 1\<rparr>"

section \<open>The calendars of a valid graph (C3)\<close>

subsection \<open>No latest date is infinite when it is subtracted from\<close>

lemma while_option_sans_erreur:
  fixes c' :: "'e + 's \<Rightarrow> 'e + 's"
  assumes run: "while_option b c s = Some t" and i0: "I s"
    and inv: "\<And>s. I s \<Longrightarrow> b s \<Longrightarrow> I (c s)"
    and step: "\<And>s. I s \<Longrightarrow> b s \<Longrightarrow> c' (Inr s) = Inr (c s)"
    and b1: "\<And>s. b' (Inr s) = b s"
  shows "while_option b' c' (Inr s) = Some (Inr t)"
proof -
  from while_option_stop2 [OF run] obtain k where k: "t = (c ^^ k) s" by blast
  from run k i0 show ?thesis
  proof (induction k arbitrary: s)
    case 0
    from while_option_stop [OF 0(1)] 0(2) have "\<not> b' (Inr s)" by (simp add: b1)
    then have "while_option b' c' (Inr s) = Some (Inr s)"
      by (subst while_option_unfold) simp
    with 0 show ?case by simp
  next
    case (Suc k)
    show ?case
    proof (cases "b s")
      case False
      with Suc.prems(1) have ts: "t = s" by (subst (asm) while_option_unfold) simp
      from False have "\<not> b' (Inr s)" by (simp add: b1)
      then have "while_option b' c' (Inr s) = Some (Inr s)"
        by (subst while_option_unfold) simp
      with ts show ?thesis by simp
    next
      case True
      then have u: "while_option b' c' (Inr s) = while_option b' c' (c' (Inr s))"
        by (subst while_option_unfold) (simp add: b1)
      from True Suc.prems(1) have r: "while_option b c (c s) = Some t"
        by (subst (asm) while_option_unfold) simp
      have 1: "t = (c ^^ k) (c s)" using Suc.prems(2) by (simp add: funpow_swap1)
      from Suc.IH [OF r 1 inv [OF Suc.prems(3) True]] u step [OF Suc.prems(3) True]
      show ?thesis by simp
    qed
  qed
qed

lemma length_fold_relaxer [simp]: "length (fold (relaxer lt ext u) vs r) = length r"
  by (induction vs arbitrary: r) auto

lemma relaxer_tard_fini:
  assumes "late ! u \<noteq> Infini" "v < length late"
  shows "relaxer plus_grand (\<lambda>u v x. moins_pur x (poids m v u)) u v late ! v \<noteq> Infini"
    and "late ! x \<noteq> Infini
           \<Longrightarrow> relaxer plus_grand (\<lambda>u v x. moins_pur x (poids m v u)) u v late ! x \<noteq> Infini"
proof -
  from assms(1) obtain a where a: "late ! u = Fin a" by (cases "late ! u") auto
  show "relaxer plus_grand (\<lambda>u v x. moins_pur x (poids m v u)) u v late ! v \<noteq> Infini"
    using assms(2) a by (cases "late ! v") (auto simp: relaxer_def)
  show "relaxer plus_grand (\<lambda>u v x. moins_pur x (poids m v u)) u v late ! x \<noteq> Infini"
    if "late ! x \<noteq> Infini"
    using that assms(2) a by (cases "x = v") (auto simp: relaxer_def)
qed

lemma fold_relaxer_tard_fini:
  "late ! u \<noteq> Infini \<Longrightarrow> \<forall>v\<in>set vs. v < length late
     \<Longrightarrow> (\<forall>x. late ! x \<noteq> Infini \<longrightarrow>
            fold (relaxer plus_grand (\<lambda>u v x. moins_pur x (poids m v u)) u) vs late ! x
              \<noteq> Infini) \<and>
         (\<forall>v\<in>set vs.
            fold (relaxer plus_grand (\<lambda>u v x. moins_pur x (poids m v u)) u) vs late ! v
              \<noteq> Infini)"
proof (induction vs arbitrary: late)
  case Nil
  then show ?case by simp
next
  case (Cons v vs)
  define late1 where "late1 = relaxer plus_grand (\<lambda>u v x. moins_pur x (poids m v u)) u v late"
  from Cons.prems have v: "v < length late" by simp
  note F = relaxer_tard_fini [OF Cons.prems(1) v, where m = m, folded late1_def]
  from F(2) [OF Cons.prems(1)] have u1: "late1 ! u \<noteq> Infini" .
  have l1: "length late1 = length late" by (simp add: late1_def)
  from Cons.prems(2) l1 have r1: "\<forall>v\<in>set vs. v < length late1" by simp
  note IH = Cons.IH [OF u1 r1]
  show ?case
  proof (intro conjI allI impI ballI)
    fix x assume "late ! x \<noteq> Infini"
    from F(2) [OF this] IH
    show "fold (relaxer plus_grand (\<lambda>u v x. moins_pur x (poids m v u)) u) (v # vs) late ! x
      \<noteq> Infini"
      by (simp add: late1_def)
  next
    fix w assume "w \<in> set (v # vs)"
    then consider "w = v" | "w \<in> set vs" by auto
    then show "fold (relaxer plus_grand (\<lambda>u v x. moins_pur x (poids m v u)) u) (v # vs) late ! w
      \<noteq> Infini"
    proof cases
      case 1
      with F(1) IH show ?thesis by (simp add: late1_def)
    next
      case 2
      with IH show ?thesis by (simp add: late1_def)
    qed
  qed
qed

lemma tard_for_fini:
  "late ! u \<noteq> Infini \<Longrightarrow> \<forall>v\<in>set vs. v < length late
     \<Longrightarrow> tard_for m u vs (deg, q, late)
           = Inr (elim_for (relaxer plus_grand (\<lambda>u v x. moins_pur x (poids m v u))) u vs
                    (deg, q, late))"
proof (induction vs arbitrary: deg q late)
  case Nil
  then show ?case by simp
next
  case (Cons v vs)
  define late1 where "late1 = relaxer plus_grand (\<lambda>u v x. moins_pur x (poids m v u)) u v late"
  from Cons.prems have v: "v < length late" by simp
  from relaxer_tard_fini(2) [OF Cons.prems(1) v Cons.prems(1), where m = m]
  have u1: "late1 ! u \<noteq> Infini" by (simp add: late1_def)
  have l1: "length late1 = length late" by (simp add: late1_def)
  from Cons.prems(2) l1 have r1: "\<forall>v\<in>set vs. v < length late1" by simp
  from tard_maj_cases [of m u v late] Cons.prems(1)
  have t: "tard_maj m u v late = Inr late1" by (simp add: late1_def)
  from Cons.IH [OF u1 r1] show ?case by (simp add: t late1_def Let_def)
qed

lemma elim_for_file:
  "elim_for f u vs (deg, q, a) = (deg', q', a')
     \<Longrightarrow> set q' \<subseteq> set q \<union> set vs \<and> a' = fold (f u) vs a"
proof (induction vs arbitrary: deg q a)
  case Nil
  then show ?case by simp
next
  case (Cons v vs)
  from Cons.prems have "elim_for f u vs
      (deg[v := deg ! v - 1], (if deg[v := deg ! v - 1] ! v = 0 then q @ [v] else q), f u v a)
      = (deg', q', a')"
    by simp
  from Cons.IH [OF this] show ?case by (auto split: if_splits)
qed

text \<open>
  The invariant of the backward loop: every vertex in the queue has a finite latest date,
  or has no predecessor to subtract for.
\<close>

definition file_finie :: "nat list list \<Rightarrow> int list \<times> nat list \<times> date list \<Rightarrow> bool" where
  "file_finie adj = (\<lambda>(deg, q, late).
     length late = length adj \<and>
     (\<forall>x\<in>set q. x < length adj \<and> (late ! x \<noteq> Infini \<or> adj ! x = [])))"

lemma file_finie_step:
  assumes ok: "adj_ok adj" and i: "file_finie adj st" and b: "(\<lambda>(deg, q, a). q \<noteq> []) st"
  shows "file_finie adj
           (elim_step (\<lambda>u a. a) (relaxer plus_grand (\<lambda>u v x. moins_pur x (poids m v u))) adj st)"
    and "(case Inr st of Inl e \<Rightarrow> Inl e
          | Inr (rev_in_degree, queue, late) \<Rightarrow>
              (let u = hd queue; queue = tl queue
               in tard_for m u (adj ! u) (rev_in_degree, queue, late)))
         = Inr (elim_step (\<lambda>u a. a) (relaxer plus_grand (\<lambda>u v x. moins_pur x (poids m v u)))
                  adj st)"
proof -
  obtain deg q late where st: "st = (deg, q, late)" by (cases st)
  from b st have q: "q \<noteq> []" by simp
  then have hq: "hd q \<in> set q" by simp
  from i st have len: "length late = length adj"
    and iq: "\<forall>x\<in>set q. x < length adj \<and> (late ! x \<noteq> Infini \<or> adj ! x = [])"
    by (simp_all add: file_finie_def)
  from iq hq have u: "hd q < length adj" and fu: "late ! hd q \<noteq> Infini \<or> adj ! hd q = []"
    by auto
  from ok u have range: "\<forall>v\<in>set (adj ! hd q). v < length adj" by (simp add: adj_ok_def)
  with len have range': "\<forall>v\<in>set (adj ! hd q). v < length late" by simp
  obtain deg' q' late' where
    e: "elim_for (relaxer plus_grand (\<lambda>u v x. moins_pur x (poids m v u))) (hd q) (adj ! hd q)
          (deg, tl q, late) = (deg', q', late')"
    by (cases "elim_for (relaxer plus_grand (\<lambda>u v x. moins_pur x (poids m v u))) (hd q)
          (adj ! hd q) (deg, tl q, late)")
  from elim_for_file [OF e] have q': "set q' \<subseteq> set (tl q) \<union> set (adj ! hd q)"
    and l': "late' = fold (relaxer plus_grand (\<lambda>u v x. moins_pur x (poids m v u)) (hd q))
                       (adj ! hd q) late"
    by auto
  have tq: "set (tl q) \<subseteq> set q" using q by (cases q) auto
  have "file_finie adj (deg', q', late')"
  proof (cases "adj ! hd q = []")
    case True
    with l' q' tq have "late' = late" "set q' \<subseteq> set q" by auto
    with len iq show ?thesis by (auto simp: file_finie_def)
  next
    case False
    with fu have f: "late ! hd q \<noteq> Infini" by simp
    note F = fold_relaxer_tard_fini [OF f range', where m = m, folded l']
    have "length late' = length adj" using len by (simp add: l')
    moreover have "x < length adj \<and> (late' ! x \<noteq> Infini \<or> adj ! x = [])" if "x \<in> set q'" for x
    proof -
      from that q' consider "x \<in> set (tl q)" | "x \<in> set (adj ! hd q)" by blast
      then show ?thesis
      proof cases
        case 1
        with tq iq have "x < length adj" "late ! x \<noteq> Infini \<or> adj ! x = []" by auto
        with F show ?thesis by blast
      next
        case 2
        with F range show ?thesis by blast
      qed
    qed
    ultimately show ?thesis by (simp add: file_finie_def)
  qed
  then show "file_finie adj
           (elim_step (\<lambda>u a. a) (relaxer plus_grand (\<lambda>u v x. moins_pur x (poids m v u))) adj st)"
    by (simp add: st elim_step_def e)
  have "tard_for m (hd q) (adj ! hd q) (deg, tl q, late)
      = Inr (elim_for (relaxer plus_grand (\<lambda>u v x. moins_pur x (poids m v u))) (hd q)
               (adj ! hd q) (deg, tl q, late))"
  proof (cases "adj ! hd q = []")
    case True
    then show ?thesis by simp
  next
    case False
    with fu have f: "late ! hd q \<noteq> Infini" by simp
    from tard_for_fini [OF f range'] show ?thesis .
  qed
  then show "(case Inr st of Inl e \<Rightarrow> Inl e
          | Inr (rev_in_degree, queue, late) \<Rightarrow>
              (let u = hd queue; queue = tl queue
               in tard_for m u (adj ! u) (rev_in_degree, queue, late)))
         = Inr (elim_step (\<lambda>u a. a) (relaxer plus_grand (\<lambda>u v x. moins_pur x (poids m v u)))
                  adj st)"
    by (simp add: st elim_step_def Let_def)
qed

lemma tard_while_sans_erreur:
  assumes ok: "adj_ok adj" and i: "file_finie adj st"
    and run: "elim_while (\<lambda>u a. a) (relaxer plus_grand (\<lambda>u v x. moins_pur x (poids m v u))) adj st
                = Some st'"
  shows "tard_while m adj st = Some (Inr st')"
  unfolding tard_while_def
proof (rule while_option_sans_erreur [OF run [unfolded elim_while_def], where I = "file_finie adj"])
  show "file_finie adj st" by (rule i)
next
  fix s :: "int list \<times> nat list \<times> date list"
  assume a: "file_finie adj s" "case s of (deg, q, a) \<Rightarrow> q \<noteq> []"
  from file_finie_step(1) [OF ok a]
  show "file_finie adj
      (elim_step (\<lambda>u a. a) (relaxer plus_grand (\<lambda>u v x. moins_pur x (poids m v u))) adj s)" .
  from file_finie_step(2) [OF ok a]
  show "(case Inr s of Inl e \<Rightarrow> Inl e
          | Inr (rev_in_degree, queue, late) \<Rightarrow>
              (let u = hd queue; queue = tl queue
               in tard_for m u (adj ! u) (rev_in_degree, queue, late)))
         = Inr (elim_step (\<lambda>u a. a) (relaxer plus_grand (\<lambda>u v x. moins_pur x (poids m v u)))
                  adj s)" .
next
  fix s :: "int list \<times> nat list \<times> date list"
  show "(case Inr s of Inl e \<Rightarrow> False | Inr (rev_in_degree, queue, late) \<Rightarrow> queue \<noteq> [])
        = (case s of (deg, q, a) \<Rightarrow> q \<noteq> [])"
    by (cases s) simp
qed

lemma calcul_marges_fini:
  "\<forall>i\<in>set is. late ! i \<noteq> Infini
     \<Longrightarrow> calcul_marges late early is = Inr (map (\<lambda>i. moins_pur (late ! i) (early ! i)) is)"
proof (induction "is")
  case Nil
  show ?case by simp
next
  case (Cons i rest)
  from Cons.prems obtain a where "late ! i = Fin a" by (cases "late ! i") auto
  with Cons show ?case by simp
qed

subsection \<open>The earliest and latest dates as relaxations\<close>

lemma plus_grand_trans: "\<forall>a b c. plus_grand a b \<longrightarrow> plus_grand b c \<longrightarrow> plus_grand a c"
proof (intro allI impI)
  fix a b c assume "plus_grand a b" "plus_grand b c"
  then show "plus_grand a c" by (cases a; cases b; cases c) auto
qed

lemma plus_grand_irr: "\<forall>a. \<not> plus_grand a a"
proof
  fix a show "\<not> plus_grand a a" by (cases a) auto
qed

lemma tot_relaxes:
  assumes ac: "acyclic (aretes m)"
  shows "\<And>v. v < length m \<Longrightarrow>
           tot_de m ! v = 0 \<or> (\<exists>u. (u, v) \<in> aretes m \<and> tot_de m ! v = tot_de m ! u + poids m u v)"
    and "\<And>u v. (u, v) \<in> aretes m \<Longrightarrow> tot_de m ! u + poids m u v \<le> tot_de m ! v"
    and "\<And>v. v < length m \<Longrightarrow> 0 \<le> tot_de m ! v"
proof -
  have ac': "acyclic (rel_adj (adj_de m))" using ac by (simp add: rel_adj_de)
  have len: "length (replicate (length m) (0::int)) = length (adj_de m)" by simp
  have t: "\<forall>a b c :: int. a < b \<longrightarrow> b < c \<longrightarrow> a < c" by simp
  have i: "\<forall>a :: int. \<not> a < a" by simp
  from relaxation_acyclique_tout [OF t i adj_ok_adj_de len ac' tot_de_def]
  have R: "\<forall>v<length m. tot_de m ! v = 0 \<or>
        (\<exists>u. (u, v) \<in> aretes m \<and> tot_de m ! v = tot_de m ! u + poids m u v)"
    "\<forall>u v. (u, v) \<in> aretes m \<longrightarrow> \<not> tot_de m ! v < tot_de m ! u + poids m u v"
    "\<forall>v<length m. \<not> tot_de m ! v < 0"
    by (simp_all add: rel_adj_de)
  show "tot_de m ! v = 0 \<or> (\<exists>u. (u, v) \<in> aretes m \<and> tot_de m ! v = tot_de m ! u + poids m u v)"
    if "v < length m" for v
    using R(1) that by blast
  show "tot_de m ! u + poids m u v \<le> tot_de m ! v" if "(u, v) \<in> aretes m" for u v
  proof -
    from R(2) that have "\<not> tot_de m ! v < tot_de m ! u + poids m u v" by blast
    then show ?thesis by simp
  qed
  show "0 \<le> tot_de m ! v" if "v < length m" for v
  proof -
    from R(3) that have "\<not> tot_de m ! v < 0" by blast
    then show ?thesis by simp
  qed
qed

lemma tard_relaxes:
  assumes ac: "acyclic (aretes m)"
  shows "\<And>v. v < length m \<Longrightarrow>
           tard_de m om ! v = (replicate (length m) Infini)[om := Fin (tot_de m ! om)] ! v \<or>
           (\<exists>u. (v, u) \<in> aretes m \<and>
                tard_de m om ! v = moins_pur (tard_de m om ! u) (poids m v u))"
    and "\<And>u v. (v, u) \<in> aretes m \<Longrightarrow>
           \<not> plus_grand (tard_de m om ! v) (moins_pur (tard_de m om ! u) (poids m v u))"
proof -
  have ac': "acyclic (rel_adj (rev_adj_de m))" using ac by (simp add: rel_rev_adj_de)
  have len: "length ((replicate (length m) Infini)[om := Fin (tot_de m ! om)])
      = length (rev_adj_de m)" by simp
  from relaxation_acyclique_tout [OF plus_grand_trans plus_grand_irr adj_ok_rev_adj_de len ac'
      tard_de_def]
  have R: "\<forall>v<length m.
        tard_de m om ! v = (replicate (length m) Infini)[om := Fin (tot_de m ! om)] ! v \<or>
        (\<exists>u. (v, u) \<in> aretes m \<and>
             tard_de m om ! v = moins_pur (tard_de m om ! u) (poids m v u))"
    "\<forall>u v. (v, u) \<in> aretes m \<longrightarrow>
        \<not> plus_grand (tard_de m om ! v) (moins_pur (tard_de m om ! u) (poids m v u))"
    by (simp_all add: rel_rev_adj_de)
  show "tard_de m om ! v = (replicate (length m) Infini)[om := Fin (tot_de m ! om)] ! v \<or>
        (\<exists>u. (v, u) \<in> aretes m \<and>
             tard_de m om ! v = moins_pur (tard_de m om ! u) (poids m v u))"
    if "v < length m" for v
    using R(1) that by blast
  show "\<not> plus_grand (tard_de m om ! v) (moins_pur (tard_de m om ! u) (poids m v u))"
    if "(v, u) \<in> aretes m" for u v
    using R(2) that by blast
qed

subsection \<open>The graph of a table that numbers its tasks from 1 to \<open>n\<close>\<close>

lemma omega_sans_successeur:
  assumes build: "construire_graphe (lire_fichier tt s0) = Inr s" and a0: "alpha s0 = 0"
    and m: "matrix s = Some m" and keys: "fst ` set tt = {1..int (length tt)}"
  shows "(length tt + 1, y) \<notin> aretes m"
proof
  assume a: "(length tt + 1, y) \<in> aretes m"
  from keys have ids: "ids_ok tt" by (simp add: ids_ok_def)
  note C = construit_cells [OF build a0 ids m]
  from a have o: "length tt + 1 < length m" and y: "y < length m"
    and c: "m ! (length tt + 1) ! y \<noteq> None"
    by (auto simp: aretes_def)
  from C(2) [OF o y] c have "arc_tache tt (length tt + 1) y" by blast
  then obtain d ps where e: "(int y, d, ps) \<in> set tt" "int (length tt + 1) \<in> set ps"
    unfolding arc_tache_def by auto
  from C(4) [OF e(1)] e(2) have "int (length tt + 1) \<in> fst ` set tt" by blast
  with keys show False by simp
qed

lemma successeur_existe:
  assumes build: "construire_graphe (lire_fichier tt s0) = Inr s" and a0: "alpha s0 = 0"
    and m: "matrix s = Some m" and keys: "fst ` set tt = {1..int (length tt)}"
    and ne: "tt \<noteq> []" and ac: "acyclic (aretes m)"
    and v: "v < length m" "v \<noteq> length tt + 1"
  shows "\<exists>y. (v, y) \<in> aretes m"
proof -
  from keys have ids: "ids_ok tt" by (simp add: ids_ok_def)
  note C = construit_cells [OF build a0 ids m]
  from C(1) have ol: "length tt + 1 < length m" and zl: "0 < length m" by simp_all
  show ?thesis
  proof (cases "v = 0")
    case True
    define Q where "Q = {i. i < length m \<and> int i \<in> fst ` set tt}"
    from ne obtain k d ps where e: "(k, d, ps) \<in> set tt" by (cases tt) auto
    from C(4) [OF e] have "nat k < length m" "int (nat k) = k" by auto
    with e have kq: "nat k \<in> Q" unfolding Q_def by force
    from finite_aretes ac have "wf (aretes m)" by (rule finite_acyclic_wf)
    from this kq obtain z where z: "z \<in> Q" and mn: "\<And>y. (y, z) \<in> aretes m \<Longrightarrow> y \<notin> Q"
      by (rule wfE_min) blast
    from z have zl': "z < length m" and zk: "int z \<in> fst ` set tt" by (auto simp: Q_def)
    from zk obtain d' ps' where e': "(int z, d', ps') \<in> set tt" by force
    have "ps' = []"
    proof (rule ccontr)
      assume "ps' \<noteq> []"
      then obtain p where p: "p \<in> set ps'" by (cases ps') auto
      with C(4) [OF e'] have pk: "p \<in> fst ` set tt" by blast
      then obtain d2 ps2 where "(p, d2, ps2) \<in> set tt" by force
      from C(4) [OF this] have p1: "1 \<le> p" "nat p < length m" by auto
      with pk have "nat p \<in> Q" by (simp add: Q_def)
      moreover from p p1(1) e' have "arc_tache tt (nat p) z" unfolding arc_tache_def by auto
      with C(2) [OF p1(2) zl'] have "m ! nat p ! z \<noteq> None" by simp
      with p1(2) zl' have "(nat p, z) \<in> aretes m" by (simp add: aretes_def)
      ultimately show False using mn by blast
    qed
    with e' have "arc_tache tt 0 z" unfolding arc_tache_def by blast
    with C(2) [OF zl zl'] have "m ! 0 ! z \<noteq> None" by simp
    with zl zl' True have "(v, z) \<in> aretes m" by (simp add: aretes_def)
    then show ?thesis ..
  next
    case False
    with v C(1) have "1 \<le> int v" "int v \<le> int (length tt)" by auto
    with keys have vk: "int v \<in> fst ` set tt" by simp
    show ?thesis
    proof (cases "\<exists>j'<length m. arc_tache tt v j'")
      case True
      then obtain j where j: "j < length m" "arc_tache tt v j" by blast
      with C(2) [OF v(1) j(1)] have "m ! v ! j \<noteq> None" by simp
      with v(1) j(1) have "(v, j) \<in> aretes m" by (simp add: aretes_def)
      then show ?thesis ..
    next
      case False
      with C(2) [OF v(1) ol] v(2) vk have "m ! v ! (length tt + 1) \<noteq> None" by simp
      with v(1) ol have "(v, length tt + 1) \<in> aretes m" by (simp add: aretes_def)
      then show ?thesis ..
    qed
  qed
qed

lemma predecesseur_existe:
  assumes build: "construire_graphe (lire_fichier tt s0) = Inr s" and a0: "alpha s0 = 0"
    and m: "matrix s = Some m" and keys: "fst ` set tt = {1..int (length tt)}"
    and ne: "tt \<noteq> []" and ac: "acyclic (aretes m)"
    and v: "v < length m" "v \<noteq> 0"
  shows "\<exists>u. (u, v) \<in> aretes m"
proof -
  from keys have ids: "ids_ok tt" by (simp add: ids_ok_def)
  from keys have le: "\<forall>k\<in>fst ` set tt. k \<le> int (length tt)" by simp
  note C = construit_cells [OF build a0 ids m]
  show ?thesis
  proof (cases "v = length tt + 1")
    case True
    with omega_a_predecesseur [OF build a0 ids m ac ne le] show ?thesis by simp
  next
    case False
    with v C(1) have "1 \<le> int v" "int v \<le> int (length tt)" by auto
    with keys have "int v \<in> fst ` set tt" by simp
    then obtain d ps where "(int v, d, ps) \<in> set tt" by force
    from tache_a_predecesseur [OF build a0 ids m this] show ?thesis .
  qed
qed

subsection \<open>The bounds of the dates\<close>

lemma poids_positif:
  assumes pos: "\<forall>i<length m. \<forall>j<length m. \<forall>w. m ! i ! j = Some w \<longrightarrow> 0 \<le> w"
    and a: "(u, v) \<in> aretes m"
  shows "0 \<le> poids m u v"
proof -
  from a obtain w where "u < length m" "v < length m" "m ! u ! v = Some w"
    by (auto simp: aretes_def)
  with pos show ?thesis by (simp add: poids_def)
qed

lemma calendriers_bornes:
  assumes build: "construire_graphe (lire_fichier tt s0) = Inr s" and a0: "alpha s0 = 0"
    and m: "matrix s = Some m" and keys: "fst ` set tt = {1..int (length tt)}"
    and ne: "tt \<noteq> []" and ac: "acyclic (aretes m)"
    and pos: "\<forall>i<length m. \<forall>j<length m. \<forall>w. m ! i ! j = Some w \<longrightarrow> 0 \<le> w"
  shows "v < length m \<longrightarrow>
           (\<exists>a. tard_de m (length tt + 1) ! v = Fin a \<and> tot_de m ! v \<le> a \<and>
                a \<le> tot_de m ! (length tt + 1))"
proof -
  from finite_aretes ac have "wf ((aretes m)\<inverse>)" by (rule finite_acyclic_wf_converse)
  then show ?thesis
  proof (induction v rule: wf_induct_rule)
    case (less x)
    show ?case
    proof
      assume x: "x < length m"
      note E = tot_relaxes [OF ac]
      note L = tard_relaxes [OF ac, where om = "length tt + 1"]
      show "\<exists>a. tard_de m (length tt + 1) ! x = Fin a \<and> tot_de m ! x \<le> a \<and>
                a \<le> tot_de m ! (length tt + 1)"
      proof (cases "x = length tt + 1")
        case True
        from L(1) [OF x] omega_sans_successeur [OF build a0 m keys] True x
        have "tard_de m (length tt + 1) ! x = Fin (tot_de m ! (length tt + 1))" by auto
        with True show ?thesis by simp
      next
        case False
        from successeur_existe [OF build a0 m keys ne ac x False] obtain y where
          y: "(x, y) \<in> aretes m" by blast
        then have yl: "y < length m" by (simp add: aretes_def)
        from y have "(y, x) \<in> (aretes m)\<inverse>" by simp
        from less.IH [OF this] yl obtain b where b: "tard_de m (length tt + 1) ! y = Fin b" by blast
        from L(2) [OF y] b have fx: "tard_de m (length tt + 1) ! x \<noteq> Infini" by auto
        from x False
        have "(replicate (length m) Infini)[length tt + 1 := Fin (tot_de m ! (length tt + 1))] ! x
          = Infini" by simp
        with L(1) [OF x] fx obtain u where u: "(x, u) \<in> aretes m"
          and e: "tard_de m (length tt + 1) ! x
                    = moins_pur (tard_de m (length tt + 1) ! u) (poids m x u)"
          by auto
        from u have ul: "u < length m" by (simp add: aretes_def)
        from u have "(u, x) \<in> (aretes m)\<inverse>" by simp
        from less.IH [OF this] ul obtain c where c: "tard_de m (length tt + 1) ! u = Fin c"
          "tot_de m ! u \<le> c" "c \<le> tot_de m ! (length tt + 1)"
          by blast
        from e c(1) have 1: "tard_de m (length tt + 1) ! x = Fin (c - poids m x u)" by simp
        from E(2) [OF u] c(2) have 2: "tot_de m ! x \<le> c - poids m x u" by simp
        from poids_positif [OF pos u] c(3) have 3: "c - poids m x u \<le> tot_de m ! (length tt + 1)"
          by simp
        from 1 2 3 show ?thesis by blast
      qed
    qed
  qed
qed

lemma predecesseur_serre:
  assumes build: "construire_graphe (lire_fichier tt s0) = Inr s" and a0: "alpha s0 = 0"
    and m: "matrix s = Some m" and keys: "fst ` set tt = {1..int (length tt)}"
    and ne: "tt \<noteq> []" and ac: "acyclic (aretes m)"
    and pos: "\<forall>i<length m. \<forall>j<length m. \<forall>w. m ! i ! j = Some w \<longrightarrow> 0 \<le> w"
    and v: "v < length m" "v \<noteq> 0"
  shows "\<exists>u. (u, v) \<in> aretes m \<and> tot_de m ! v = tot_de m ! u + poids m u v"
proof -
  note E = tot_relaxes [OF ac]
  from E(1) [OF v(1)] show ?thesis
  proof
    assume z: "tot_de m ! v = 0"
    from predecesseur_existe [OF build a0 m keys ne ac v] obtain u where
      u: "(u, v) \<in> aretes m" by blast
    then have "u < length m" by (simp add: aretes_def)
    from E(3) [OF this] E(2) [OF u] poids_positif [OF pos u] z
    have "tot_de m ! v = tot_de m ! u + poids m u v" by simp
    with u show ?thesis by blast
  next
    assume "\<exists>u. (u, v) \<in> aretes m \<and> tot_de m ! v = tot_de m ! u + poids m u v"
    then show ?thesis .
  qed
qed

lemma calendriers_alpha:
  assumes build: "construire_graphe (lire_fichier tt s0) = Inr s" and a0: "alpha s0 = 0"
    and m: "matrix s = Some m" and keys: "fst ` set tt = {1..int (length tt)}"
    and ne: "tt \<noteq> []" and ac: "acyclic (aretes m)"
    and pos: "\<forall>i<length m. \<forall>j<length m. \<forall>w. m ! i ! j = Some w \<longrightarrow> 0 \<le> w"
  shows "tot_de m ! 0 = 0 \<and> tard_de m (length tt + 1) ! 0 = Fin 0"
proof -
  from keys have ids: "ids_ok tt" by (simp add: ids_ok_def)
  from lire_construit [OF build] m have len: "length m = length tt + 2" by auto
  then have zl: "0 < length m" and ol: "length tt + 1 < length m" by simp_all
  note E = tot_relaxes [OF ac]
  note L = tard_relaxes [OF ac, where om = "length tt + 1"]
  note B = calendriers_bornes [OF build a0 m keys ne ac pos]
  from E(1) [OF zl] alpha_sans_predecesseur [OF build a0 ids m]
  have e0: "tot_de m ! 0 = 0" by blast
  from finite_aretes ac have "wf (aretes m)" by (rule finite_acyclic_wf)
  then have Q: "v < length m \<longrightarrow> tard_de m (length tt + 1) ! v = Fin (tot_de m ! v)
      \<longrightarrow> tard_de m (length tt + 1) ! 0 = Fin (tot_de m ! 0)" for v
  proof (induction v rule: wf_induct_rule)
    case (less x)
    show ?case
    proof (intro impI)
      assume x: "x < length m" and cx: "tard_de m (length tt + 1) ! x = Fin (tot_de m ! x)"
      show "tard_de m (length tt + 1) ! 0 = Fin (tot_de m ! 0)"
      proof (cases "x = 0")
        case True
        with cx show ?thesis by simp
      next
        case False
        from predecesseur_serre [OF build a0 m keys ne ac pos x False] obtain u where
          u: "(u, x) \<in> aretes m" and t: "tot_de m ! x = tot_de m ! u + poids m u x"
          by blast
        from u have ul: "u < length m" by (simp add: aretes_def)
        from B [of u] ul obtain a where a: "tard_de m (length tt + 1) ! u = Fin a"
          "tot_de m ! u \<le> a" by blast
        from L(2) [OF u] a(1) cx have "a \<le> tot_de m ! x - poids m u x" by simp
        with t a(2) have "a = tot_de m ! u" by simp
        with a(1) have "tard_de m (length tt + 1) ! u = Fin (tot_de m ! u)" by simp
        with less.IH [OF u] ul show ?thesis by blast
      qed
    qed
  qed
  from B [of "length tt + 1"] ol
  have "tard_de m (length tt + 1) ! (length tt + 1) = Fin (tot_de m ! (length tt + 1))"
    by auto
  with Q [of "length tt + 1"] ol e0 show ?thesis by simp
qed

subsection \<open>What \<open>calculer_calendriers\<close> returns on a valid graph\<close>

lemma calculer_calendriers_valide:
  assumes build: "construire_graphe (lire_fichier tt s0) = Inr s" and a0: "alpha s0 = 0"
    and m: "matrix s = Some m" and keys: "fst ` set tt = {1..int (length tt)}"
    and ne: "tt \<noteq> []" and ac: "acyclic (aretes m)"
    and pos: "\<forall>i<length m. \<forall>j<length m. \<forall>w. m ! i ! j = Some w \<longrightarrow> 0 \<le> w"
  shows "calculer_calendriers s =
           Some (Inr (Some (tot_de m, tard_de m (length tt + 1),
                            map (\<lambda>i. moins_pur (tard_de m (length tt + 1) ! i) (tot_de m ! i))
                              [0..<length m])))"
proof -
  from lire_construit [OF build] m have len: "length m = length tt + 2"
    and om: "omega s = length tt + 1" by auto
  from len have mne: "m \<noteq> []" and ol: "length tt + 1 < length m" by auto
  from elim_while_ordre [OF adj_ok_adj_de, of "\<lambda>u a. a"
      "relaxer (<) (\<lambda>u v x. x + poids m u v)" m "replicate (length m) (0::int)"]
  obtain deg where t: "tot_while m (adj_de m)
      (degres (adj_de m), points_entree (length m) (degres (adj_de m)), replicate (length m) 0)
    = Some (deg, [], tot_de m)"
    by (auto simp: tot_while_elim tot_de_def)
  from elim_while_ordre [OF adj_ok_rev_adj_de, of "\<lambda>u a. a"
      "relaxer plus_grand (\<lambda>u v x. moins_pur x (poids m v u))" m
      "(replicate (length m) Infini)[length tt + 1 := Fin (tot_de m ! (length tt + 1))]"]
  obtain deg' where run: "elim_while (\<lambda>u a. a)
      (relaxer plus_grand (\<lambda>u v x. moins_pur x (poids m v u))) (rev_adj_de m)
      (degres (rev_adj_de m), points_entree (length m) (degres (rev_adj_de m)),
       (replicate (length m) Infini)[length tt + 1 := Fin (tot_de m ! (length tt + 1))])
    = Some (deg', [], tard_de m (length tt + 1))"
    by (auto simp: tard_de_def)
  have "\<forall>x\<in>set (points_entree (length m) (degres (rev_adj_de m))). x < length m \<and>
        ((replicate (length m) Infini)[length tt + 1 := Fin (tot_de m ! (length tt + 1))] ! x
           \<noteq> Infini \<or> rev_adj_de m ! x = [])"
  proof
    fix x assume "x \<in> set (points_entree (length m) (degres (rev_adj_de m)))"
    then have x: "x < length m" and d: "degres (rev_adj_de m) ! x = 0"
      by (auto simp: points_entree_def)
    from d x have "succs m x = []" by (simp add: degres_rev_adj_de)
    then have "\<forall>y. (x, y) \<notin> aretes m"
      using x by (auto simp: succs_def aretes_def filter_empty_conv)
    with successeur_existe [OF build a0 m keys ne ac x] have "x = length tt + 1" by blast
    with x show "x < length m \<and>
        ((replicate (length m) Infini)[length tt + 1 := Fin (tot_de m ! (length tt + 1))] ! x
           \<noteq> Infini \<or> rev_adj_de m ! x = [])"
      by simp
  qed
  then have init: "file_finie (rev_adj_de m)
      (degres (rev_adj_de m), points_entree (length m) (degres (rev_adj_de m)),
       (replicate (length m) Infini)[length tt + 1 := Fin (tot_de m ! (length tt + 1))])"
    by (simp add: file_finie_def)
  from tard_while_sans_erreur [OF adj_ok_rev_adj_de init run]
  have l: "tard_while m (rev_adj_de m)
      (degres (rev_adj_de m), points_entree (length m) (degres (rev_adj_de m)),
       (replicate (length m) Infini)[length tt + 1 := Fin (tot_de m ! (length tt + 1))])
    = Some (Inr (deg', [], tard_de m (length tt + 1)))" .
  have "\<forall>i\<in>set [0..<length m]. tard_de m (length tt + 1) ! i \<noteq> Infini"
  proof
    fix i assume "i \<in> set [0..<length m]"
    then have "i < length m" by simp
    with calendriers_bornes [OF build a0 m keys ne ac pos, of i]
    show "tard_de m (length tt + 1) ! i \<noteq> Infini" by auto
  qed
  from calcul_marges_fini [OF this]
  have mg: "calcul_marges (tard_de m (length tt + 1)) (tot_de m) [0..<length m]
      = Inr (map (\<lambda>i. moins_pur (tard_de m (length tt + 1) ! i) (tot_de m ! i)) [0..<length m])" .
  from m mne ol om t l mg show ?thesis
    by (simp add: calculer_calendriers_def construire_adj_degres construire_rev_adj_degres
        Let_def)
qed

text \<open>
  C3, as the specification states it, covers the empty table. Its graph has the two
  vertices \<open>alpha\<close> and \<open>omega\<close> and no arc; it is valid, the duration is 0, and the latest
  date of \<open>alpha\<close> is never written: it is infinite, and so is the margin of \<open>alpha\<close>.
\<close>

theorem C3_counterexample:
  "construire_graphe (lire_fichier [] init) = Inr graphe_vide \<and>
   verifier_proprietes graphe_vide = Some True \<and>
   calculer_calendriers graphe_vide =
     Some (Inr (Some ([0, 0], [Infini, Fin 0], [Infini, Fin 0])))"
proof -
  have 1: "construire_graphe (lire_fichier [] init) = Inr graphe_vide" by code_simp
  have 2: "verifier_proprietes graphe_vide = Some True" by code_simp
  have 3: "calculer_calendriers graphe_vide =
     Some (Inr (Some ([0, 0], [Infini, Fin 0], [Infini, Fin 0])))" by code_simp
  from 1 2 3 show ?thesis by simp
qed

text \<open>
  C3, amended: for every table that is not empty and numbers its tasks from 1 to \<open>n\<close>, if
  the built graph has no negative weight and no circuit, \<open>calculer_calendriers\<close> returns
  three arrays with, for every vertex \<open>i\<close>, a finite latest date,
  \<open>0 \<le> earliest[i] \<le> latest[i] \<le> earliest[omega]\<close> (the duration of the project) and
  \<open>margin[i] = latest[i] - earliest[i]\<close>, and the margins of \<open>alpha\<close> and \<open>omega\<close> are 0.
\<close>

theorem C3_calendriers:
  assumes build: "construire_graphe (lire_fichier tt s0) = Inr s" and a0: "alpha s0 = 0"
    and m: "matrix s = Some m" and keys: "fst ` set tt = {1..int (length tt)}"
    and ne: "tt \<noteq> []" and ac: "acyclic (aretes m)"
    and pos: "\<forall>i<length m. \<forall>j<length m. \<forall>w. m ! i ! j = Some w \<longrightarrow> 0 \<le> w"
  shows "\<exists>early late margins.
           calculer_calendriers s = Some (Inr (Some (early, late, margins))) \<and>
           length early = length m \<and> length late = length m \<and> length margins = length m \<and>
           (\<forall>i<length m. \<exists>l. late ! i = Fin l \<and> margins ! i = Fin (l - early ! i) \<and>
                0 \<le> early ! i \<and> early ! i \<le> l \<and> l \<le> early ! omega s) \<and>
           margins ! alpha s = Fin 0 \<and> margins ! omega s = Fin 0"
proof -
  from lire_construit [OF build] m a0 have len: "length m = length tt + 2"
    and om: "omega s = length tt + 1" and al: "alpha s = 0" by auto
  from len have zl: "0 < length m" and ol: "length tt + 1 < length m" by simp_all
  define early where "early = tot_de m"
  define late where "late = tard_de m (length tt + 1)"
  define margins where
    "margins = map (\<lambda>i. moins_pur (late ! i) (early ! i)) [0..<length m]"
  note B = calendriers_bornes [OF build a0 m keys ne ac pos, folded early_def late_def]
  note A = calendriers_alpha [OF build a0 m keys ne ac pos, folded early_def late_def]
  note E = tot_relaxes [OF ac, folded early_def]
  have cc: "calculer_calendriers s = Some (Inr (Some (early, late, margins)))"
    using calculer_calendriers_valide [OF build a0 m keys ne ac pos]
    by (simp add: early_def late_def margins_def)
  have l1: "length early = length m" "length late = length m" "length margins = length m"
    by (simp_all add: early_def late_def margins_def)
  have P: "\<exists>l. late ! i = Fin l \<and> margins ! i = Fin (l - early ! i) \<and>
                0 \<le> early ! i \<and> early ! i \<le> l \<and> l \<le> early ! (length tt + 1)"
    if i: "i < length m" for i
  proof -
    from B [of i] i obtain a where a: "late ! i = Fin a" "early ! i \<le> a"
      "a \<le> early ! (length tt + 1)" by blast
    from i a(1) have "margins ! i = Fin (a - early ! i)" by (simp add: margins_def)
    with a E(3) [OF i] show ?thesis by blast
  qed
  from A zl have m0: "margins ! 0 = Fin 0" by (simp add: margins_def)
  from B [of "length tt + 1"] ol obtain a where a: "late ! (length tt + 1) = Fin a"
    "early ! (length tt + 1) \<le> a" "a \<le> early ! (length tt + 1)" by blast
  with ol have mo: "margins ! (length tt + 1) = Fin 0" by (simp add: margins_def)
  from cc l1 P m0 mo show ?thesis unfolding om al by blast
qed

lemma exemple_sans_negatif:
  "\<forall>i<length matrice_exemple. \<forall>j<length matrice_exemple. \<forall>w.
     matrice_exemple ! i ! j = Some w \<longrightarrow> 0 \<le> w"
proof -
  have "\<not> has_negative matrice_exemple" by code_simp
  then show ?thesis unfolding has_negative_iff by (meson not_less)
qed

theorem C3_calendriers_witness:
  "construire_graphe (lire_fichier exemple init) = Inr graphe_exemple \<and> alpha init = 0 \<and>
   matrix graphe_exemple = Some matrice_exemple \<and>
   fst ` set exemple = {1..int (length exemple)} \<and> exemple \<noteq> [] \<and>
   acyclic (aretes matrice_exemple) \<and>
   calculer_calendriers graphe_exemple =
     Some (Inr (Some ([0, 0, 0, 3, 7, 8],
                      [Fin 0, Fin 0, Fin 1, Fin 3, Fin 7, Fin 8],
                      [Fin 0, Fin 0, Fin 1, Fin 0, Fin 0, Fin 0]))) \<and>
   [Fin 0, Fin 0, Fin 1, Fin 0, Fin 0, Fin 0] ! alpha graphe_exemple = Fin 0 \<and>
   [Fin 0, Fin 0, Fin 1, Fin 0, Fin 0, Fin 0] ! omega graphe_exemple = Fin 0"
proof -
  have a0: "alpha init = 0" by (simp add: init_def)
  have m1: "matrix graphe_exemple = Some matrice_exemple" by (simp add: graphe_exemple_def)
  have k: "fst ` set exemple = {1..int (length exemple)}"
    by (auto simp: exemple_def)
  have n1: "exemple \<noteq> []" by (simp add: exemple_def)
  from C3_calendriers [OF exemple_construit a0 m1 k n1 exemple_sans_circuit exemple_sans_negatif]
    exemple_calendriers
  have "[Fin 0, Fin 0, Fin 1, Fin 0, Fin 0, Fin 0] ! alpha graphe_exemple = Fin 0 \<and>
        [Fin 0, Fin 0, Fin 1, Fin 0, Fin 0, Fin 0] ! omega graphe_exemple = Fin 0"
    by auto
  with exemple_construit a0 m1 k n1 exemple_sans_circuit exemple_calendriers show ?thesis
    by simp
qed

end
